theory Spec2Isabelle
  imports Main "HOL-Library.AList"
begin

section \<open>The UMLS relation crawler of app.py\<close>

text \<open>
  The script resolves a term through the UMLS search endpoint, crawls typed relations
  breadth first up to a depth bound into a networkx \<open>DiGraph\<close>, lists the edges and
  derives a depth value per node for the 3D plot.

  Modelling decisions.
  \<^item> The HTTP service is a parameter: a function from the requested URL to a status code
    and a decoded body. Bodies are typed after the two response shapes the script reads;
    a field is a string or absent (\<open>None\<close>), which is what \<open>dict.get\<close> returns for it.
  \<^item> \<open>langdetect.detect\<close> is a parameter that returns a language code or raises. The
    script does not seed it, so two runs may meet two different detectors.
  \<^item> Every Python exception is a value: a function that can raise returns a sum with the
    exception on the left.
  \<^item> The graph is the adjacency structure of \<open>networkx.DiGraph\<close>: an insertion-ordered
    dictionary from node to an insertion-ordered dictionary from successor to the edge's
    attributes, both as association lists.
  \<^item> Streamlit widgets, warnings, the plotly figure, the files and the archive are not
    modelled; the floating-point spring layout is not modelled either.
\<close>

subsection \<open>Python values\<close>

datatype py_error =
  AttributeError | ValueError | KeyError | IndexError | TypeError | LangDetectException

text \<open>\<open>s.split(c)\<close> for a one-character separator: never empty, \<open>''''\<close> gives \<open>['''']\<close>.\<close>

fun split_char :: "char \<Rightarrow> string \<Rightarrow> string list" where
  "split_char c [] = [[]]"
| "split_char c (x # xs) =
     (if x = c then [] # split_char c xs
      else (case split_char c xs of
              [] \<Rightarrow> [[x]]
            | w # ws \<Rightarrow> (x # w) # ws))"

text \<open>\<open>sep.join(parts)\<close>.\<close>

fun join :: "string \<Rightarrow> string list \<Rightarrow> string" where
  "join sep [] = []"
| "join sep [x] = x"
| "join sep (x # y # ys) = x @ sep @ join sep (y # ys)"

text \<open>Decimal rendering of an integer, as an f-string renders \<open>page_number\<close>.\<close>

definition digit :: "nat \<Rightarrow> char" where
  "digit n = ''0123456789'' ! (n mod 10)"

function str_nat :: "nat \<Rightarrow> string" where
  "str_nat n = (if n < 10 then [digit n] else str_nat (n div 10) @ [digit n])"
  by pat_completeness auto
termination
  by (relation "measure (\<lambda>n. n)") auto

definition str_int :: "int \<Rightarrow> string" where
  "str_int i = (if i < 0 then CHR ''-'' # str_nat (nat (- i)) else str_nat (nat i))"

text \<open>Truthiness of a value that is a string or \<open>None\<close>.\<close>

fun truthy :: "string option \<Rightarrow> bool" where
  "truthy None = False"
| "truthy (Some s) = (s \<noteq> [])"

text \<open>An f-string renders a missing value as \<open>None\<close>.\<close>

fun fmt :: "string option \<Rightarrow> string" where
  "fmt None = ''None''"
| "fmt (Some s) = s"

subsection \<open>Service responses\<close>

record resource =
  r_name :: "string option"
  r_uri :: "string option"

record search_result =
  results :: "resource list option"

record search_body =
  s_result :: "search_result option"

record relation_info =
  relatedIdName :: "string option"
  relationLabel :: "string option"
  additionalRelationLabel :: "string option"
  relatedId :: "string option"

record relations_body =
  rel_result :: "relation_info list option"

type_synonym 'b http = "string \<Rightarrow> nat \<times> 'b"

type_synonym detector = "string option \<Rightarrow> py_error + string"

subsection \<open>The directed graph\<close>

record edge_data =
  e_label :: string
  e_uri :: "string option"
  e_depth :: int

type_synonym digraph = "(string \<times> (string \<times> edge_data) list) list"

definition nodes :: "digraph \<Rightarrow> string list" where
  "nodes g = map fst g"

text \<open>\<open>graph.edges(data=True)\<close>: by source in node order, then by successor.\<close>

definition edges :: "digraph \<Rightarrow> (string \<times> string \<times> edge_data) list" where
  "edges g = concat (map (\<lambda>(u, succs). map (\<lambda>(v, d). (u, v, d)) succs) g)"

definition add_node :: "string \<Rightarrow> digraph \<Rightarrow> digraph" where
  "add_node n g = (if n \<in> set (nodes g) then g else g @ [(n, [])])"

text \<open>
  \<open>DiGraph.add_edge(u, v, **attr)\<close> for node names that are strings: both nodes are added
  when new, then the attributes of \<open>(u, v)\<close> are updated with \<open>attr\<close>. The script always
  passes all three attributes, so the update replaces the whole record. A successor that
  is already present keeps its position.
\<close>

definition add_edge :: "string \<Rightarrow> string \<Rightarrow> edge_data \<Rightarrow> digraph \<Rightarrow> digraph" where
  "add_edge u v d g = AList.map_entry u (AList.update v d) (add_node v (add_node u g))"

text \<open>\<open>graph[u][v]\<close> where present.\<close>

definition edge_data_of :: "digraph \<Rightarrow> string \<Rightarrow> string \<Rightarrow> edge_data option" where
  "edge_data_of g u v = (case map_of g u of None \<Rightarrow> None | Some succs \<Rightarrow> map_of succs v)"

text \<open>
  Well-formedness of the adjacency structure as dictionaries: no node and no successor
  is listed twice.
\<close>

definition graph_inv :: "digraph \<Rightarrow> bool" where
  "graph_inv g = (distinct (map fst g) \<and> list_all (\<lambda>(n, succs). distinct (map fst succs)) g)"

definition edge_pair :: "string \<times> string \<times> edge_data \<Rightarrow> string \<times> string" where
  "edge_pair e = (fst e, fst (snd e))"

text \<open>The successor dictionary of a node, empty for a node that is not in the graph.\<close>

definition succs_of :: "digraph \<Rightarrow> string \<Rightarrow> (string \<times> edge_data) list" where
  "succs_of g u = (case map_of g u of None \<Rightarrow> [] | Some s \<Rightarrow> s)"

subsection \<open>get_request\<close>

definition get_request :: "'b http \<Rightarrow> string \<Rightarrow> string \<Rightarrow> 'b option" where
  "get_request http api_key uri =
     (let search_url = uri @ ''&apiKey='' @ api_key;
          response = http search_url
      in if fst response = 200 then Some (snd response) else None)"

subsection \<open>find_uri_from_name\<close>

definition find_uri_from_name ::
  "search_body http \<Rightarrow> string \<Rightarrow> string \<Rightarrow> py_error + (string option \<times> string option)" where
  "find_uri_from_name http api_key term_name =
     (let query_term_name = join ''+'' (split_char CHR '' '' term_name);
          uri = ''https://uts-ws.nlm.nih.gov/rest/search/current?string='' @ query_term_name;
          search_data = get_request http api_key uri
      in case search_data of
           None \<Rightarrow> Inr (None, None)
         | Some body \<Rightarrow>
            (case s_result body of
               None \<Rightarrow> Inr (None, None)
             | Some res \<Rightarrow>
                (case results res of
                   None \<Rightarrow> Inr (None, None)
                 | Some [] \<Rightarrow> Inr (None, None)
                 | Some (rsc # _) \<Rightarrow>
                    (case r_name rsc of
                       None \<Rightarrow> Inl KeyError
                     | Some n \<Rightarrow>
                        (case r_uri rsc of
                           None \<Rightarrow> Inl KeyError
                         | Some u \<Rightarrow> Inr (Some n, Some u))))))"

subsection \<open>get_relations\<close>

type_synonym kid = "string \<times> string option"

text \<open>
  The body of the \<open>for info in ...\<close> loop. \<open>detect\<close> may raise; \<open>add_edge\<close> raises
  \<open>ValueError\<close> for a target that is \<open>None\<close>.
\<close>

fun relations_loop ::
  "detector \<Rightarrow> int \<Rightarrow> string \<Rightarrow> relation_info list \<Rightarrow> kid list \<Rightarrow> digraph
   \<Rightarrow> py_error + (kid list \<times> digraph)" where
  "relations_loop detect depth name [] kids g = Inr (kids, g)"
| "relations_loop detect depth name (info # rest) kids g =
     (case detect (relatedIdName info) of
        Inl e \<Rightarrow> Inl e
      | Inr lang \<Rightarrow>
          if lang = ''en'' then
            (case relatedIdName info of
               None \<Rightarrow> Inl ValueError
             | Some v \<Rightarrow>
                 relations_loop detect depth name rest
                   (kids @ [(v, relatedId info)])
                   (add_edge name v
                      \<lparr>e_label = fmt (relationLabel info) @ ''('' @
                                 fmt (additionalRelationLabel info) @ '')'',
                       e_uri = relatedId info,
                       e_depth = depth\<rparr> g))
          else relations_loop detect depth name rest kids g)"

text \<open>
  \<open>json_data\<close> is \<open>None\<close> after a failed request, and \<open>None.get\<close> raises
  \<open>AttributeError\<close>. A body without \<open>result\<close> gives the default \<open>[]\<close>.
\<close>

definition get_relations ::
  "relations_body http \<Rightarrow> string \<Rightarrow> detector \<Rightarrow> int \<Rightarrow> string \<Rightarrow> string \<Rightarrow> int \<Rightarrow> digraph
   \<Rightarrow> py_error + (kid list \<times> digraph)" where
  "get_relations http api_key detect depth name uri page_number g =
     (let relations_uri = uri @ ''/relations?pageNumber='' @ str_int page_number;
          json_data = get_request http api_key relations_uri
      in case json_data of
           None \<Rightarrow> Inl AttributeError
         | Some body \<Rightarrow>
             relations_loop detect depth name
               (case rel_result body of None \<Rightarrow> [] | Some infos \<Rightarrow> infos) [] g)"

subsection \<open>The crawl of main\<close>

text \<open>
  The variables of the crawl: the deque \<open>frontier\<close>, the list \<open>expanded_uris\<close> and the
  graph. \<open>fetch_log\<close> is not a variable of the script: it records the arguments
  \<open>(depth, name, uri)\<close> of every call of \<open>get_relations\<close>, in call order, so that
  properties of the calls can be stated. A crash reports the exception with the log up to
  and including the call that raised.
\<close>

type_synonym fetch_call = "int \<times> string \<times> string"

record crawl_state =
  frontier :: "kid list"
  expanded_uris :: "string list"
  graph :: digraph
  fetch_log :: "fetch_call list"

definition entity_id_of :: "string \<Rightarrow> string" where
  "entity_id_of uri = last (split_char CHR ''/'' uri)"

definition call_id :: "fetch_call \<Rightarrow> string" where
  "call_id c = entity_id_of (snd (snd c))"

text \<open>
  \<open>for _ in range(len(frontier))\<close>: the count is fixed when the loop starts.
  \<open>popleft\<close> raises \<open>IndexError\<close> on an empty deque; \<open>uri.split\<close> raises
  \<open>AttributeError\<close> when the child's \<open>relatedId\<close> was missing.
\<close>

fun expand_batch ::
  "relations_body http \<Rightarrow> string \<Rightarrow> detector \<Rightarrow> int \<Rightarrow> nat \<Rightarrow> int \<Rightarrow> crawl_state
   \<Rightarrow> (py_error \<times> fetch_call list) + crawl_state" where
  "expand_batch http api_key detect max_depth 0 depth st = Inr st"
| "expand_batch http api_key detect max_depth (Suc k) depth st =
     (case frontier st of
        [] \<Rightarrow> Inl (IndexError, fetch_log st)
      | (name, uri_opt) # rest \<Rightarrow>
          (case uri_opt of
             None \<Rightarrow> Inl (AttributeError, fetch_log st)
           | Some uri \<Rightarrow>
               (let entity_id = entity_id_of uri in
                if depth \<le> max_depth \<and> entity_id \<notin> set (expanded_uris st) then
                  (case get_relations http api_key detect depth name uri 1 (graph st) of
                     Inl e \<Rightarrow> Inl (e, fetch_log st @ [(depth, name, uri)])
                   | Inr (kids, g') \<Rightarrow>
                       expand_batch http api_key detect max_depth k depth
                         \<lparr>frontier = rest @ kids,
                          expanded_uris = expanded_uris st @ [entity_id],
                          graph = g',
                          fetch_log = fetch_log st @ [(depth, name, uri)]\<rparr>)
                else
                  expand_batch http api_key detect max_depth k depth
                    (st\<lparr>frontier := rest\<rparr>))))"

text \<open>\<open>while depth <= max_depth\<close>: one batch per level.\<close>

function crawl_loop ::
  "relations_body http \<Rightarrow> string \<Rightarrow> detector \<Rightarrow> int \<Rightarrow> int \<Rightarrow> crawl_state
   \<Rightarrow> (py_error \<times> fetch_call list) + crawl_state" where
  "crawl_loop http api_key detect max_depth depth st =
     (if depth \<le> max_depth then
        (case expand_batch http api_key detect max_depth (length (frontier st)) depth st of
           Inl e \<Rightarrow> Inl e
         | Inr st' \<Rightarrow> crawl_loop http api_key detect max_depth (depth + 1) st')
      else Inr st)"
  by pat_completeness auto
termination
  by (relation "measure (\<lambda>(http, api_key, detect, max_depth, depth, st).
        nat (max_depth + 1 - depth))") auto

definition initial_state :: "string \<Rightarrow> string \<Rightarrow> crawl_state" where
  "initial_state name_start uri_start =
     \<lparr>frontier = [(name_start, Some uri_start)], expanded_uris = [], graph = [],
      fetch_log = []\<rparr>"

text \<open>
  What pressing the button does, up to the end of the crawl. \<open>TermNotFound\<close> is the
  branch in which \<open>name_start and uri_start\<close> is false and nothing more happens.
\<close>

datatype main_result =
  TermNotFound
| Crashed py_error "fetch_call list"
| Completed crawl_state

definition main ::
  "search_body http \<Rightarrow> relations_body http \<Rightarrow> string \<Rightarrow> detector \<Rightarrow> string \<Rightarrow> int
   \<Rightarrow> main_result" where
  "main http_search http_relations api_key detect term_name max_depth =
     (case find_uri_from_name http_search api_key term_name of
        Inl e \<Rightarrow> Crashed e []
      | Inr (name_start, uri_start) \<Rightarrow>
          (case (name_start, uri_start) of
             (Some n, Some u) \<Rightarrow>
               if truthy (Some n) \<and> truthy (Some u) then
                 (case crawl_loop http_relations api_key detect max_depth 0
                         (initial_state n u) of
                    Inl (e, calls) \<Rightarrow> Crashed e calls
                  | Inr st \<Rightarrow> Completed st)
               else TermNotFound
           | _ \<Rightarrow> TermNotFound))"

text \<open>The calls of \<open>get_relations\<close> made by a run.\<close>

fun relation_fetches :: "main_result \<Rightarrow> fetch_call list" where
  "relation_fetches TermNotFound = []"
| "relation_fetches (Crashed e calls) = calls"
| "relation_fetches (Completed st) = fetch_log st"

subsection \<open>The relationship listing\<close>

definition relationship :: "string \<times> string \<times> edge_data \<Rightarrow> string" where
  "relationship e =
     (case e of (u, v, d) \<Rightarrow> u @ '' --> '' @ v @ '' (Relation: '' @ e_label d @ '')'')"

definition relationships :: "digraph \<Rightarrow> string list" where
  "relationships g = map relationship (edges g)"

definition relationships_txt :: "digraph \<Rightarrow> string" where
  "relationships_txt g = join [CHR 0x0A] (relationships g)"

subsection \<open>The depth values of create_3d_graph\<close>

text \<open>One pass of the loop over \<open>graph.edges(data=True)\<close> that fills \<open>node_depth\<close>.\<close>

definition node_depth_step ::
  "(string \<rightharpoonup> int) \<Rightarrow> string \<times> string \<times> edge_data \<Rightarrow> (string \<rightharpoonup> int)" where
  "node_depth_step nd e =
     (case e of (u, v, d) \<Rightarrow>
        (let depth = e_depth d;
             nd1 = (if nd u = None then nd(u \<mapsto> depth) else nd);
             nd2 = (if nd1 v = None then nd1(v \<mapsto> depth) else nd1)
         in nd2))"

definition node_depth :: "digraph \<Rightarrow> (string \<rightharpoonup> int)" where
  "node_depth g = foldl node_depth_step Map.empty (edges g)"

definition depth_value :: "digraph \<Rightarrow> string \<Rightarrow> int" where
  "depth_value g node = (case node_depth g node of None \<Rightarrow> 0 | Some d \<Rightarrow> d)"

definition depth_values :: "digraph \<Rightarrow> int list" where
  "depth_values g = map (depth_value g) (nodes g)"

subsection \<open>Invariants of the crawl\<close>

text \<open>
  The fetch log agrees with \<open>expanded_uris\<close>, and no entity id occurs twice in it.
\<close>

definition log_inv :: "crawl_state \<Rightarrow> bool" where
  "log_inv st = (map call_id (fetch_log st) = expanded_uris st \<and> distinct (expanded_uris st))"

text \<open>The same for the outcome of a loop: a crash carries the log alone.\<close>

fun outcome_log_inv :: "(py_error \<times> fetch_call list) + crawl_state \<Rightarrow> bool" where
  "outcome_log_inv (Inl (e, calls)) = distinct (map call_id calls)"
| "outcome_log_inv (Inr st) = log_inv st"

text \<open>Every edge of a well-formed graph has a depth of at most \<open>max_depth\<close>.\<close>

definition depth_inv :: "int \<Rightarrow> digraph \<Rightarrow> bool" where
  "depth_inv max_depth g =
     (graph_inv g \<and> (\<forall>u v d. edge_data_of g u v = Some d \<longrightarrow> e_depth d \<le> max_depth))"

text \<open>Every node of a well-formed graph is the source or the target of an edge.\<close>

definition endpoint_inv :: "digraph \<Rightarrow> bool" where
  "endpoint_inv g =
     (graph_inv g \<and>
      (\<forall>n \<in> set (nodes g). \<exists>u v d. edge_data_of g u v = Some d \<and> (n = u \<or> n = v)))"

subsection \<open>Depth values as the specification words them\<close>

definition incident :: "string \<Rightarrow> string \<times> string \<times> edge_data \<Rightarrow> bool" where
  "incident n e = (fst e = n \<or> fst (snd e) = n)"

definition incident_depths :: "digraph \<Rightarrow> string \<Rightarrow> int list" where
  "incident_depths g n = map (\<lambda>e. e_depth (snd (snd e))) (filter (incident n) (edges g))"

text \<open>
  The specification: the minimum of the depths of all edges that touch the node, 0 for a
  node that no edge touches.
\<close>

definition min_incident_depth :: "digraph \<Rightarrow> string \<Rightarrow> int" where
  "min_incident_depth g n = (case incident_depths g n of [] \<Rightarrow> 0 | d # ds \<Rightarrow> fold min ds d)"

text \<open>The depth of the first edge that touches the node in edge iteration order.\<close>

definition first_incident_depth :: "digraph \<Rightarrow> string \<Rightarrow> int" where
  "first_incident_depth g n = (case incident_depths g n of [] \<Rightarrow> 0 | d # ds \<Rightarrow> d)"

subsection \<open>Records judged English\<close>

text \<open>A record that \<open>detect\<close> judges to be English.\<close>

definition english :: "detector \<Rightarrow> relation_info \<Rightarrow> bool" where
  "english detect info = (detect (relatedIdName info) = Inr ''en'')"

subsection \<open>Reading the relationship listing back\<close>

text \<open>The two delimiters that \<open>main\<close> writes into a line of the listing.\<close>

definition sep_arrow :: string where
  "sep_arrow = '' --> ''"

definition sep_relation :: string where
  "sep_relation = '' (Relation: ''"

text \<open>
  The script has no parser for the listing; the one below reads a line the way it was
  written. \<open>find_sep\<close> cuts a text at the first occurrence of a delimiter, as
  \<open>str.partition\<close> does. The source name is what precedes the first arrow, the target
  name what precedes the first \<open>(Relation:\<close> after it, and the label is the rest without
  the closing parenthesis.
\<close>

fun find_sep :: "string \<Rightarrow> string \<Rightarrow> (string \<times> string) option" where
  "find_sep sep [] = (if sep = [] then Some ([], []) else None)"
| "find_sep sep (c # cs) =
     (if take (length sep) (c # cs) = sep then Some ([], drop (length sep) (c # cs))
      else (case find_sep sep cs of
              None \<Rightarrow> None
            | Some (a, b) \<Rightarrow> Some (c # a, b)))"

definition parse_line :: "string \<Rightarrow> (string \<times> string \<times> string) option" where
  "parse_line l =
     (case find_sep sep_arrow l of
        None \<Rightarrow> None
      | Some (u, r) \<Rightarrow>
          (case find_sep sep_relation r of
             None \<Rightarrow> None
           | Some (v, lab) \<Rightarrow>
               if lab \<noteq> [] \<and> last lab = CHR '')'' then Some (u, v, butlast lab) else None))"

text \<open>The lines of a text; the empty text has none.\<close>

definition listing_lines :: "string \<Rightarrow> string list" where
  "listing_lines txt = (if txt = [] then [] else split_char (CHR 0x0A) txt)"

definition parse_listing :: "string \<Rightarrow> (string \<times> string \<times> string) option list" where
  "parse_listing txt = map parse_line (listing_lines txt)"

definition triple :: "string \<times> string \<times> edge_data \<Rightarrow> string \<times> string \<times> string" where
  "triple e = (fst e, fst (snd e), e_label (snd (snd e)))"

text \<open>
  A delimiter begins inside a name when, in the name followed by the delimiter, an
  occurrence of the delimiter starts before the name ends. A name that contains the
  delimiter is such a name, and so is \<open>A -->\<close> for the arrow; \<open>Age > 65\<close> is not.
\<close>

definition begins_inside :: "string \<Rightarrow> string \<Rightarrow> bool" where
  "begins_inside sep s =
     list_ex (\<lambda>i. take (length sep) (drop i (s @ sep)) = sep) [0..<length s]"

text \<open>
  The names and the label of an edge can be read back: no line break in any of them, the
  arrow does not begin inside the source name and \<open>(Relation:\<close> does not begin inside
  the target name.
\<close>

definition readable :: "string \<times> string \<times> edge_data \<Rightarrow> bool" where
  "readable e =
     (CHR 0x0A \<notin> set (fst e) \<union> set (fst (snd e)) \<union> set (e_label (snd (snd e)))
      \<and> \<not> begins_inside sep_arrow (fst e)
      \<and> \<not> begins_inside sep_relation (fst (snd e)))"

subsection \<open>What a run records\<close>

text \<open>The attributes that \<open>get_relations\<close> passes to \<open>add_edge\<close> for a record.\<close>

definition edge_of_record :: "int \<Rightarrow> relation_info \<Rightarrow> edge_data" where
  "edge_of_record depth info =
     \<lparr>e_label = fmt (relationLabel info) @ ''('' @ fmt (additionalRelationLabel info) @ '')'',
      e_uri = relatedId info,
      e_depth = depth\<rparr>"

text \<open>
  The edges a fetch records for a page, in page order: one for every record that has a
  name and is judged English.
\<close>

definition recorded ::
  "detector \<Rightarrow> int \<Rightarrow> string \<Rightarrow> relation_info list \<Rightarrow> (string \<times> string \<times> edge_data) list" where
  "recorded detect depth name infos =
     concat (map (\<lambda>info. case relatedIdName info of
                            None \<Rightarrow> []
                          | Some v \<Rightarrow>
                              if english detect info then [(name, v, edge_of_record depth info)]
                              else []) infos)"

text \<open>The records of the page that the crawl requests for a URI (always page 1).\<close>

definition page_of :: "relations_body http \<Rightarrow> string \<Rightarrow> string \<Rightarrow> relation_info list" where
  "page_of http api_key uri =
     (case get_request http api_key (uri @ ''/relations?pageNumber='' @ str_int 1) of
        None \<Rightarrow> []
      | Some body \<Rightarrow> (case rel_result body of None \<Rightarrow> [] | Some infos \<Rightarrow> infos))"

text \<open>All edges recorded by the calls of a fetch log, in the order of recording.\<close>

definition recordings ::
  "relations_body http \<Rightarrow> string \<Rightarrow> detector \<Rightarrow> fetch_call list
   \<Rightarrow> (string \<times> string \<times> edge_data) list" where
  "recordings http api_key detect calls =
     concat (map (\<lambda>c. recorded detect (fst c) (fst (snd c))
                         (page_of http api_key (snd (snd c)))) calls)"

text \<open>The attributes of the last recording of the pair \<open>(u, v)\<close>, if there is one.\<close>

definition last_recorded ::
  "(string \<times> string \<times> edge_data) list \<Rightarrow> string \<Rightarrow> string \<Rightarrow> edge_data option" where
  "last_recorded rs u v =
     (let xs = filter (\<lambda>r. edge_pair r = (u, v)) rs
      in if xs = [] then None else Some (snd (snd (last xs))))"

text \<open>The graph holds, for every pair, what the logged calls recorded last.\<close>

definition rec_inv ::
  "relations_body http \<Rightarrow> string \<Rightarrow> detector \<Rightarrow> digraph \<Rightarrow> fetch_call list \<Rightarrow> bool" where
  "rec_inv http api_key detect g calls =
     (\<forall>u v. edge_data_of g u v = last_recorded (recordings http api_key detect calls) u v)"

subsection \<open>Sample services\<close>

text \<open>
  Concrete services on which the model is evaluated. A service is a table from the
  requested URL to its response; any other URL answers 404.
\<close>

definition table_http :: "(string \<times> nat \<times> 'b) list \<Rightarrow> 'b \<Rightarrow> 'b http" where
  "table_http tab dflt url = (case map_of tab url of None \<Rightarrow> (404, dflt) | Some r \<Rightarrow> r)"

definition search_url :: "string \<Rightarrow> string" where
  "search_url q = ''https://uts-ws.nlm.nih.gov/rest/search/current?string='' @ q @ ''&apiKey=K''"

definition rel_url :: "string \<Rightarrow> string" where
  "rel_url uri = uri @ ''/relations?pageNumber=1&apiKey=K''"

definition found :: "string \<Rightarrow> string \<Rightarrow> search_body" where
  "found n u = \<lparr>s_result = Some \<lparr>results = Some [\<lparr>r_name = Some n, r_uri = Some u\<rparr>]\<rparr>\<rparr>"

definition rel :: "string \<Rightarrow> string \<Rightarrow> string \<Rightarrow> relation_info" where
  "rel n l u = \<lparr>relatedIdName = Some n, relationLabel = Some l,
               additionalRelationLabel = Some [], relatedId = Some u\<rparr>"

definition page :: "relation_info list \<Rightarrow> relations_body" where
  "page infos = \<lparr>rel_result = Some infos\<rparr>"

text \<open>
  A stand-in for \<open>langdetect.detect\<close>: it raises on a missing argument and on text without
  a letter, as the library does, knows one German word and calls everything else English.
\<close>

definition is_letter :: "char \<Rightarrow> bool" where
  "is_letter c = (c \<in> set ''abcdefghijklmnopqrstuvwxyzABCDEFGHIJKLMNOPQRSTUVWXYZ'')"

definition detect_sample :: detector where
  "detect_sample t =
     (case t of
        None \<Rightarrow> Inl TypeError
      | Some s \<Rightarrow>
          if \<not> list_ex is_letter s then Inl LangDetectException
          else if s = ''Herzinfarkt'' then Inr ''de''
          else Inr ''en'')"

text \<open>
  Service 1: the seed MI (id C1) relates to ACS (C2), to a German name and to Angina (C3);
  ACS relates back to MI and to Angina; Angina relates to ACS under a second URI with the
  same last segment.
\<close>

definition search1 :: "search_body http" where
  "search1 = table_http
     [(search_url ''MI'', 200, found ''MI'' ''https://u/C1'')]
     \<lparr>s_result = None\<rparr>"

definition relations1 :: "relations_body http" where
  "relations1 = table_http
     [(rel_url ''https://u/C1'', 200,
         page [rel ''ACS'' ''related_to'' ''https://u/C2'',
               rel ''Herzinfarkt'' ''translation_of'' ''https://u/C9'',
               rel ''Angina'' ''has_finding'' ''https://u/C3'']),
      (rel_url ''https://u/C2'', 200,
         page [rel ''MI'' ''related_to'' ''https://u/C1'',
               rel ''Angina'' ''may_cause'' ''https://u/C3'']),
      (rel_url ''https://u/C3'', 200,
         page [rel ''ACS'' ''caused_by'' ''https://v/C2''])]
     \<lparr>rel_result = None\<rparr>"

text \<open>
  Service 2: the seed's page lists ACS and Angina; the relations request for ACS is
  answered with 404.
\<close>

definition relations_c2_down :: "relations_body http" where
  "relations_c2_down = table_http
     [(rel_url ''https://u/C1'', 200,
         page [rel ''ACS'' ''related_to'' ''https://u/C2'',
               rel ''Angina'' ''has_finding'' ''https://u/C3'']),
      (rel_url ''https://u/C3'', 200, page [])]
     \<lparr>rel_result = None\<rparr>"

text \<open>The state in which the crawl of service 1 from MI with \<open>max_depth = 2\<close> ends.\<close>

definition final1 :: crawl_state where
  "final1 =
     \<lparr>frontier = [],
      expanded_uris = [''C1'', ''C2'', ''C3''],
      graph =
        [(''MI'',
          [(''ACS'', \<lparr>e_label = ''related_to()'', e_uri = Some ''https://u/C2'', e_depth = 0\<rparr>),
           (''Angina'', \<lparr>e_label = ''has_finding()'', e_uri = Some ''https://u/C3'', e_depth = 0\<rparr>)]),
         (''ACS'',
          [(''MI'', \<lparr>e_label = ''related_to()'', e_uri = Some ''https://u/C1'', e_depth = 1\<rparr>),
           (''Angina'', \<lparr>e_label = ''may_cause()'', e_uri = Some ''https://u/C3'', e_depth = 1\<rparr>)]),
         (''Angina'',
          [(''ACS'', \<lparr>e_label = ''caused_by()'', e_uri = Some ''https://v/C2'', e_depth = 1\<rparr>)])],
      fetch_log =
        [(0, ''MI'', ''https://u/C1''), (1, ''ACS'', ''https://u/C2''),
         (1, ''Angina'', ''https://u/C3'')]\<rparr>"

text \<open>
  Service 3: the only relation of the seed has a name that is not English. The crawl
  from MI ends in \<open>final3\<close>.
\<close>

definition relations3 :: "relations_body http" where
  "relations3 = table_http
     [(rel_url ''https://u/C1'', 200,
         page [rel ''Herzinfarkt'' ''translation_of'' ''https://u/C9''])]
     \<lparr>rel_result = None\<rparr>"

definition final3 :: crawl_state where
  "final3 =
     \<lparr>frontier = [], expanded_uris = [''C1''], graph = [],
      fetch_log = [(0, ''MI'', ''https://u/C1'')]\<rparr>"

text \<open>Search service 2: the search for MX succeeds with an empty results array.\<close>

definition search2 :: "search_body http" where
  "search2 = table_http
     [(search_url ''MX'', 200, \<lparr>s_result = Some \<lparr>results = Some []\<rparr>\<rparr>)]
     \<lparr>s_result = None\<rparr>"

text \<open>
  Service 4: two concepts share the display name Cold. The seed Cold (C10) relates to Flu
  (C11), Flu relates to the other Cold (C12), which relates to Flu again. The crawl with
  \<open>max_depth = 2\<close> ends in \<open>final4\<close>: the edge from Cold to Flu, first recorded at depth
  0, was recorded again at depth 2.
\<close>

definition search4 :: "search_body http" where
  "search4 = table_http
     [(search_url ''Cold'', 200, found ''Cold'' ''https://u/C10'')]
     \<lparr>s_result = None\<rparr>"

definition relations4 :: "relations_body http" where
  "relations4 = table_http
     [(rel_url ''https://u/C10'', 200, page [rel ''Flu'' ''related_to'' ''https://u/C11'']),
      (rel_url ''https://u/C11'', 200, page [rel ''Cold'' ''differs_from'' ''https://u/C12'']),
      (rel_url ''https://u/C12'', 200, page [rel ''Flu'' ''associated_with'' ''https://u/C11''])]
     \<lparr>rel_result = None\<rparr>"

definition final4 :: crawl_state where
  "final4 =
     \<lparr>frontier = [(''Flu'', Some ''https://u/C11'')],
      expanded_uris = [''C10'', ''C11'', ''C12''],
      graph =
        [(''Cold'',
          [(''Flu'', \<lparr>e_label = ''associated_with()'', e_uri = Some ''https://u/C11'',
                      e_depth = 2\<rparr>)]),
         (''Flu'',
          [(''Cold'', \<lparr>e_label = ''differs_from()'', e_uri = Some ''https://u/C12'',
                       e_depth = 1\<rparr>)])],
      fetch_log =
        [(0, ''Cold'', ''https://u/C10''), (1, ''Flu'', ''https://u/C11''),
         (2, ''Cold'', ''https://u/C12'')]\<rparr>"

text \<open>
  Service 5: the page of the seed lists ACS, a record with an empty name, and Angina.
\<close>

definition relations5 :: "relations_body http" where
  "relations5 = table_http
     [(rel_url ''https://u/C1'', 200,
         page [rel ''ACS'' ''related_to'' ''https://u/C2'',
               rel [] ''related_to'' ''https://u/C4'',
               rel ''Angina'' ''has_finding'' ''https://u/C3''])]
     \<lparr>rel_result = None\<rparr>"

text \<open>
  Service 6: a concept named \<open>A\<close> that relates to \<open>B --> C\<close>, and a concept named
  \<open>A --> B\<close> that relates to \<open>C\<close>, with the same relation label. The crawls from either with
  \<open>max_depth = 0\<close> end in \<open>final6a\<close> and \<open>final6b\<close>.
\<close>

definition search6 :: "search_body http" where
  "search6 = table_http
     [(search_url ''A'', 200, found ''A'' ''https://u/C20''),
      (search_url ''A+-->+B'', 200, found ''A --> B'' ''https://u/C21'')]
     \<lparr>s_result = None\<rparr>"

definition relations6 :: "relations_body http" where
  "relations6 = table_http
     [(rel_url ''https://u/C20'', 200, page [rel ''B --> C'' ''isa'' ''https://u/C22'']),
      (rel_url ''https://u/C21'', 200, page [rel ''C'' ''isa'' ''https://u/C23''])]
     \<lparr>rel_result = None\<rparr>"

definition final6a :: crawl_state where
  "final6a =
     \<lparr>frontier = [(''B --> C'', Some ''https://u/C22'')],
      expanded_uris = [''C20''],
      graph =
        [(''A'', [(''B --> C'', \<lparr>e_label = ''isa()'', e_uri = Some ''https://u/C22'',
                                e_depth = 0\<rparr>)]),
         (''B --> C'', [])],
      fetch_log = [(0, ''A'', ''https://u/C20'')]\<rparr>"

definition final6b :: crawl_state where
  "final6b =
     \<lparr>frontier = [(''C'', Some ''https://u/C23'')],
      expanded_uris = [''C21''],
      graph =
        [(''A --> B'', [(''C'', \<lparr>e_label = ''isa()'', e_uri = Some ''https://u/C23'',
                                e_depth = 0\<rparr>)]),
         (''C'', [])],
      fetch_log = [(0, ''A --> B'', ''https://u/C21'')]\<rparr>"

text \<open>
  Service 7: the seed Cold (C30) lists Flu twice, with two labels and two URIs of the
  same entity C31; Flu relates to another concept named Cold (C32), whose page lists Flu
  a third time. The crawl from Cold with \<open>max_depth = 2\<close> ends in \<open>final7\<close>.
\<close>

definition search7 :: "search_body http" where
  "search7 = table_http
     [(search_url ''Cold'', 200, found ''Cold'' ''https://u/C30'')]
     \<lparr>s_result = None\<rparr>"

definition relations7 :: "relations_body http" where
  "relations7 = table_http
     [(rel_url ''https://u/C30'', 200,
         page [rel ''Flu'' ''related_to'' ''https://u/C31'',
               rel ''Flu'' ''may_cause'' ''https://w/C31'']),
      (rel_url ''https://u/C31'', 200, page [rel ''Cold'' ''differs_from'' ''https://u/C32'']),
      (rel_url ''https://u/C32'', 200, page [rel ''Flu'' ''associated_with'' ''https://v/C31''])]
     \<lparr>rel_result = None\<rparr>"

definition final7 :: crawl_state where
  "final7 =
     \<lparr>frontier = [(''Flu'', Some ''https://v/C31'')],
      expanded_uris = [''C30'', ''C31'', ''C32''],
      graph =
        [(''Cold'',
          [(''Flu'', \<lparr>e_label = ''associated_with()'', e_uri = Some ''https://v/C31'',
                      e_depth = 2\<rparr>)]),
         (''Flu'',
          [(''Cold'', \<lparr>e_label = ''differs_from()'', e_uri = Some ''https://u/C32'',
                       e_depth = 1\<rparr>)])],
      fetch_log =
        [(0, ''Cold'', ''https://u/C30''), (1, ''Flu'', ''https://u/C31''),
         (2, ''Cold'', ''https://u/C32'')]\<rparr>"

text \<open>
  Service 8: the seed \<open>Age > 65\<close> relates to Elderly and to \<open>Finding: frailty\<close>. The
  crawl with \<open>max_depth = 0\<close> ends in \<open>final8\<close>.
\<close>

definition search8 :: "search_body http" where
  "search8 = table_http
     [(search_url ''Age+>+65'', 200, found ''Age > 65'' ''https://u/C50'')]
     \<lparr>s_result = None\<rparr>"

definition relations8 :: "relations_body http" where
  "relations8 = table_http
     [(rel_url ''https://u/C50'', 200,
         page [rel ''Elderly'' ''isa'' ''https://u/C51'',
               rel ''Finding: frailty'' ''may_cause'' ''https://u/C52''])]
     \<lparr>rel_result = None\<rparr>"

definition final8 :: crawl_state where
  "final8 =
     \<lparr>frontier = [(''Elderly'', Some ''https://u/C51''),
                  (''Finding: frailty'', Some ''https://u/C52'')],
      expanded_uris = [''C50''],
      graph =
        [(''Age > 65'',
          [(''Elderly'', \<lparr>e_label = ''isa()'', e_uri = Some ''https://u/C51'', e_depth = 0\<rparr>),
           (''Finding: frailty'',
            \<lparr>e_label = ''may_cause()'', e_uri = Some ''https://u/C52'', e_depth = 0\<rparr>)]),
         (''Elderly'', []),
         (''Finding: frailty'', [])],
      fetch_log = [(0, ''Age > 65'', ''https://u/C50'')]\<rparr>"

text \<open>
  Service 9. \<open>P\<close> relates to \<open>--> Q\<close>, and \<open>P -->\<close> relates to \<open>Q\<close>. A concept named
  \<open>R\<close> relates to \<open>S (Relation: T\<close> with the label \<open>isa\<close>, and another concept named
  \<open>R\<close>, found by the term \<open>R2\<close>, relates to \<open>S\<close> with the label \<open>T (Relation: isa\<close>.
  \<open>N\<close> relates to a name with a line break in it.
\<close>

definition search9 :: "search_body http" where
  "search9 = table_http
     [(search_url ''P'', 200, found ''P'' ''https://u/C60''),
      (search_url ''P+-->'', 200, found ''P -->'' ''https://u/C62''),
      (search_url ''R'', 200, found ''R'' ''https://u/C64''),
      (search_url ''R2'', 200, found ''R'' ''https://u/C66''),
      (search_url ''N'', 200, found ''N'' ''https://u/C67'')]
     \<lparr>s_result = None\<rparr>"

definition relations9 :: "relations_body http" where
  "relations9 = table_http
     [(rel_url ''https://u/C60'', 200, page [rel ''--> Q'' ''isa'' ''https://u/C61'']),
      (rel_url ''https://u/C62'', 200, page [rel ''Q'' ''isa'' ''https://u/C63'']),
      (rel_url ''https://u/C64'', 200, page [rel ''S (Relation: T'' ''isa'' ''https://u/C65'']),
      (rel_url ''https://u/C66'', 200, page [rel ''S'' ''T (Relation: isa'' ''https://u/C65'']),
      (rel_url ''https://u/C67'', 200,
         page [rel (''X'' @ [CHR 0x0A] @ ''Y'') ''isa'' ''https://u/C68''])]
     \<lparr>rel_result = None\<rparr>"



subsection \<open>Outcomes of a run\<close>


fun final_listing :: "main_result \<Rightarrow> string option" where
  "final_listing (Completed st) = Some (relationships_txt (graph st))"
| "final_listing TermNotFound = None"
| "final_listing (Crashed e calls) = None"

fun final_triples :: "main_result \<Rightarrow> (string \<times> string \<times> string) list option" where
  "final_triples (Completed st) = Some (map triple (edges (graph st)))"
| "final_triples TermNotFound = None"
| "final_triples (Crashed e calls) = None"

section \<open>Properties\<close>

subsection \<open>The graph operations\<close>

lemma nodes_add_node: "set (nodes (add_node n g)) = insert n (set (nodes g))"
  by (auto simp: add_node_def nodes_def)

lemma edge_data_of_succs: "edge_data_of g u v = map_of (succs_of g u) v"
  by (simp add: edge_data_of_def succs_of_def split: option.splits)

lemma in_nodes_iff: "n \<in> set (nodes g) \<longleftrightarrow> map_of g n \<noteq> None"
  by (simp add: nodes_def map_of_eq_None_iff)

lemma map_of_add_node:
  "map_of (add_node n g) k = (if k = n \<and> map_of g n = None then Some [] else map_of g k)"
proof (cases "n \<in> set (nodes g)")
  case True
  then show ?thesis by (simp add: add_node_def in_nodes_iff)
next
  case False
  then have "map_of g n = None" by (simp add: in_nodes_iff)
  with False show ?thesis
    by (simp add: add_node_def map_add_def split: option.splits)
qed

lemma succs_of_add_node: "succs_of (add_node n g) k = succs_of g k"
  by (simp add: succs_of_def map_of_add_node)

lemma nodes_add_edge: "set (nodes (add_edge u v d g)) = insert u (insert v (set (nodes g)))"
proof -
  have "set (nodes (add_edge u v d g)) = fst ` set (AList.map_entry u (AList.update v d) (add_node v (add_node u g)))"
    by (simp add: add_edge_def nodes_def)
  also have "\<dots> = set (nodes (add_node v (add_node u g)))"
    using dom_map_entry[of u "AList.update v d" "add_node v (add_node u g)"]
    by (simp add: nodes_def)
  finally show ?thesis by (auto simp: nodes_add_node)
qed

lemma edge_data_of_add_edge:
  "edge_data_of (add_edge u v d g) u' v' =
     (if u' = u \<and> v' = v then Some d else edge_data_of g u' v')"
proof -
  let ?G = "add_node v (add_node u g)"
  have dom: "map_of ?G u \<noteq> None"
    by (simp add: map_of_add_node)
  have sc: "succs_of ?G k = succs_of g k" for k
    by (simp add: succs_of_add_node)
  show ?thesis
  proof (cases "u' = u")
    case True
    from dom obtain s where s: "map_of ?G u = Some s" by blast
    then have "succs_of ?G u = s" by (simp add: succs_of_def)
    then have s': "s = succs_of g u" by (simp add: sc)
    have "edge_data_of (add_edge u v d g) u v' = map_of (AList.update v d s) v'"
      by (simp add: edge_data_of_def add_edge_def map_of_map_entry s)
    then show ?thesis
      by (simp add: True update_conv' s' edge_data_of_succs)
  next
    case False
    have "succs_of (add_edge u v d g) u' = succs_of ?G u'"
      using False by (simp add: succs_of_def add_edge_def map_of_map_entry)
    then show ?thesis
      using False by (simp add: edge_data_of_succs sc)
  qed
qed

lemma set_map_entry:
  "p \<in> set (AList.map_entry k f xs) \<Longrightarrow> p \<in> set xs \<or> (\<exists>s. (k, s) \<in> set xs \<and> p = (k, f s))"
  by (induction xs) (auto split: if_splits)

lemma graph_inv_add_node: "graph_inv g \<Longrightarrow> graph_inv (add_node n g)"
  by (auto simp: graph_inv_def add_node_def nodes_def)

lemma graph_inv_add_edge: "graph_inv g \<Longrightarrow> graph_inv (add_edge u v d g)"
proof -
  assume "graph_inv g"
  then have G: "graph_inv (add_node v (add_node u g))" (is "graph_inv ?G")
    by (simp add: graph_inv_add_node)
  have "distinct (map fst (AList.map_entry u (AList.update v d) ?G))"
    using G by (simp add: graph_inv_def distinct_map_entry)
  moreover have "list_all (\<lambda>(n, succs). distinct (map fst succs)) (AList.map_entry u (AList.update v d) ?G)"
    using G unfolding graph_inv_def list_all_iff
    by (auto dest!: set_map_entry simp: distinct_update)
  ultimately show ?thesis by (simp add: graph_inv_def add_edge_def)
qed

lemma edges_iff:
  assumes "graph_inv g"
  shows "(u, v, d) \<in> set (edges g) \<longleftrightarrow> edge_data_of g u v = Some d"
proof -
  from assms have dg: "distinct (map fst g)"
    and ds: "\<And>n s. (n, s) \<in> set g \<Longrightarrow> distinct (map fst s)"
    by (auto simp: graph_inv_def list_all_iff)
  have "(u, v, d) \<in> set (edges g) \<longleftrightarrow> (\<exists>s. (u, s) \<in> set g \<and> (v, d) \<in> set s)"
    by (auto simp: edges_def)
  also have "\<dots> \<longleftrightarrow> (\<exists>s. map_of g u = Some s \<and> map_of s v = Some d)"
    using dg ds by (metis map_of_eq_Some_iff)
  also have "\<dots> \<longleftrightarrow> edge_data_of g u v = Some d"
    by (simp add: edge_data_of_def split: option.splits)
  finally show ?thesis .
qed

lemma distinct_edge_pairs: "graph_inv g \<Longrightarrow> distinct (map edge_pair (edges g))"
proof (induction g)
  case Nil
  then show ?case by (simp add: edges_def)
next
  case (Cons p g)
  obtain n s where p: "p = (n, s)" by (cases p)
  from Cons.prems have inv: "graph_inv g" and ds: "distinct (map fst s)" and n: "n \<notin> fst ` set g"
    by (auto simp: graph_inv_def p)
  have e: "edges (p # g) = map (\<lambda>(v, d). (n, v, d)) s @ edges g"
    by (simp add: edges_def p)
  have 1: "map edge_pair (map (\<lambda>(v, d). (n, v, d)) s) = map (\<lambda>v. (n, v)) (map fst s)"
    by (simp add: edge_pair_def case_prod_unfold)
  have 2: "fst ` set (map edge_pair (edges g)) \<subseteq> fst ` set g"
    by (auto simp: edges_def edge_pair_def) force
  have "distinct (map (\<lambda>v. (n, v)) (map fst s))"
    using ds by (simp add: distinct_map inj_on_def)
  moreover have "set (map (\<lambda>v. (n, v)) (map fst s)) \<inter> set (map edge_pair (edges g)) = {}"
  proof (rule ccontr)
    assume "\<not> ?thesis"
    then obtain x where x1: "x \<in> set (map (\<lambda>v. (n, v)) (map fst s))"
      and x2: "x \<in> set (map edge_pair (edges g))" by blast
    from x1 have "fst x = n" by auto
    moreover from x2 2 have "fst x \<in> fst ` set g" by blast
    ultimately show False using n by simp
  qed
  moreover note Cons.IH[OF inv]
  ultimately have "distinct (map (\<lambda>v. (n, v)) (map fst s) @ map edge_pair (edges g))"
    by (simp only: distinct_append)
  then show ?case
    by (simp only: e map_append 1)
qed

subsection \<open>Invariants of the graph along the crawl\<close>

lemma relations_loop_graph:
  assumes step: "\<And>v d g. e_depth d = depth \<Longrightarrow> P g \<Longrightarrow> P (add_edge name v d g)"
    and "P g"
    and "relations_loop detect depth name infos kids g = Inr (kids', g')"
  shows "P g'"
  using assms(2,3)
proof (induction infos arbitrary: kids g)
  case Nil
  then show ?case by simp
next
  case (Cons info rest)
  show ?case
  proof (cases "detect (relatedIdName info)")
    case (Inl e)
    with Cons.prems show ?thesis by simp
  next
    case (Inr lang)
    show ?thesis
    proof (cases "lang = ''en''")
      case True
      with Cons.prems Inr obtain v where v: "relatedIdName info = Some v"
        by (cases "relatedIdName info") auto
      let ?d = "\<lparr>e_label = fmt (relationLabel info) @ ''('' @
                 fmt (additionalRelationLabel info) @ '')'',
                e_uri = relatedId info, e_depth = depth\<rparr>"
      have "P (add_edge name v ?d g)"
        using Cons.prems(1) by (intro step) simp_all
      moreover have "relations_loop detect depth name rest (kids @ [(v, relatedId info)])
           (add_edge name v ?d g) = Inr (kids', g')"
        using Cons.prems(2) Inr True v by simp
      ultimately show ?thesis by (rule Cons.IH)
    next
      case False
      with Cons.prems Inr have "relations_loop detect depth name rest kids g = Inr (kids', g')"
        by simp
      with Cons.prems(1) show ?thesis by (rule Cons.IH)
    qed
  qed
qed

lemma get_relations_graph:
  assumes "\<And>v d g. e_depth d = depth \<Longrightarrow> P g \<Longrightarrow> P (add_edge name v d g)"
    and "P g"
    and "get_relations http api_key detect depth name uri pg g = Inr (kids', g')"
  shows "P g'"
proof -
  from assms(3) obtain infos where
    "relations_loop detect depth name infos [] g = Inr (kids', g')"
    by (auto simp: get_relations_def Let_def split: option.splits)
  with assms(1,2) show ?thesis by (rule relations_loop_graph)
qed

lemma expand_batch_graph:
  assumes step: "\<And>u v d g. e_depth d \<le> max_depth \<Longrightarrow> P g \<Longrightarrow> P (add_edge u v d g)"
    and "P (graph st)"
    and "expand_batch http api_key detect max_depth k depth st = Inr st'"
  shows "P (graph st')"
  using assms(2,3)
proof (induction k arbitrary: st)
  case 0
  then show ?case by simp
next
  case (Suc k)
  from Suc.prems(2) obtain name uri rest where
    fr: "frontier st = (name, Some uri) # rest"
    by (auto split: list.splits option.splits)
  show ?case
  proof (cases "depth \<le> max_depth \<and> entity_id_of uri \<notin> set (expanded_uris st)")
    case True
    with Suc.prems(2) fr obtain kids g' where
      gr: "get_relations http api_key detect depth name uri 1 (graph st) = Inr (kids, g')"
      and rec: "expand_batch http api_key detect max_depth k depth
         \<lparr>frontier = rest @ kids,
          expanded_uris = expanded_uris st @ [entity_id_of uri],
          graph = g',
          fetch_log = fetch_log st @ [(depth, name, uri)]\<rparr> = Inr st'"
      by (auto simp: Let_def split: sum.splits)
    have "P g'"
    proof (rule get_relations_graph[where P=P, OF _ Suc.prems(1) gr])
      fix v g and d :: edge_data
      assume "e_depth d = depth" "P g"
      with True show "P (add_edge name v d g)" by (intro step) simp_all
    qed
    then have "P (graph \<lparr>frontier = rest @ kids,
          expanded_uris = expanded_uris st @ [entity_id_of uri],
          graph = g',
          fetch_log = fetch_log st @ [(depth, name, uri)]\<rparr>)" by simp
    then show ?thesis using rec by (rule Suc.IH)
  next
    case False
    with Suc.prems(2) fr have
      "expand_batch http api_key detect max_depth k depth (st\<lparr>frontier := rest\<rparr>) = Inr st'"
      by (auto simp: Let_def)
    moreover have "P (graph (st\<lparr>frontier := rest\<rparr>))" using Suc.prems(1) by simp
    ultimately show ?thesis using Suc.IH by blast
  qed
qed

declare crawl_loop.simps [simp del]

lemma crawl_loop_graph:
  assumes "\<And>u v d g. e_depth d \<le> max_depth \<Longrightarrow> P g \<Longrightarrow> P (add_edge u v d g)"
    and "P (graph st)"
    and "crawl_loop http api_key detect max_depth depth st = Inr st'"
  shows "P (graph st')"
  using assms
proof (induction http api_key detect max_depth depth st rule: crawl_loop.induct)
  case (1 http api_key detect max_depth depth st)
  note step = "1.prems"(1)
  show ?case
  proof (cases "depth \<le> max_depth")
    case True
    with "1.prems"(3) obtain st1 where
      b: "expand_batch http api_key detect max_depth (length (frontier st)) depth st = Inr st1"
      and r: "crawl_loop http api_key detect max_depth (depth + 1) st1 = Inr st'"
      by (subst (asm) crawl_loop.simps) (simp split: sum.splits)
    have "P (graph st1)"
    proof (rule expand_batch_graph[where P=P, OF _ "1.prems"(2) b])
      fix u v g and d :: edge_data
      assume "e_depth d \<le> max_depth" "P g"
      then show "P (add_edge u v d g)" by (rule step)
    qed
    with "1.IH"[OF True b step] r show ?thesis by simp
  next
    case False
    with "1.prems" show ?thesis by (subst (asm) crawl_loop.simps) simp
  qed
qed

subsection \<open>Entity ids\<close>

text \<open>\<open>split\<close> never returns an empty list, so \<open>[-1]\<close> always has an element to take.\<close>

lemma split_char_not_empty: "split_char c s \<noteq> []"
  by (induction s) (auto split: list.splits)

lemma entity_id_of_examples:
  "entity_id_of ''https://u/C1'' = ''C1''"
  "entity_id_of ''C1'' = ''C1''"
  "entity_id_of ''https://u/'' = []"
  by code_simp+

subsection \<open>Failed requests\<close>

lemma get_relations_http_error:
  "fst (http (uri @ ''/relations?pageNumber='' @ str_int page_number @ ''&apiKey='' @ api_key)) \<noteq> 200
   \<Longrightarrow> get_relations http api_key detect depth name uri page_number g = Inl AttributeError"
  by (simp add: get_relations_def get_request_def Let_def)

text \<open>
  Claim C1. The claim: when the request for a node's relations page returns a non-success
  status, the fetch for that node yields no children and no edges, and the crawl goes on
  with the rest of the frontier. The code: \<open>get_request\<close> returns \<open>None\<close> for such a
  response and \<open>get_relations\<close> calls \<open>.get\<close> on it, which raises \<open>AttributeError\<close>
  (lemma \<open>get_relations_http_error\<close>), while \<open>find_uri_from_name\<close> tests the same
  value before using it. Evaluated on service 2 with \<open>max_depth = 1\<close>: the fetch for ACS
  raises, and the run ends there, before Angina, the next frontier entry, is fetched.
\<close>

theorem get_relations_failed_request_raises:
  "fst (relations_c2_down (rel_url ''https://u/C2'')) = 404
   \<and> get_relations relations_c2_down ''K'' detect_sample 1 ''ACS'' ''https://u/C2'' 1 []
       = Inl AttributeError
   \<and> main search1 relations_c2_down ''K'' detect_sample ''MI'' 1
       = Crashed AttributeError [(0, ''MI'', ''https://u/C1''), (1, ''ACS'', ''https://u/C2'')]"
  by code_simp

subsection \<open>Calls of get_relations\<close>

lemma expand_batch_log:
  "log_inv st \<Longrightarrow> outcome_log_inv (expand_batch http api_key detect max_depth k depth st)"
proof (induction k arbitrary: st)
  case 0
  then show ?case by simp
next
  case (Suc k)
  show ?case
  proof (cases "frontier st")
    case Nil
    with Suc.prems show ?thesis by (simp add: log_inv_def)
  next
    case (Cons p rest)
    obtain name uri_opt where p: "p = (name, uri_opt)" by (cases p)
    show ?thesis
    proof (cases uri_opt)
      case None
      with Suc.prems Cons p show ?thesis by (simp add: log_inv_def)
    next
      case (Some uri)
      show ?thesis
      proof (cases "depth \<le> max_depth \<and> entity_id_of uri \<notin> set (expanded_uris st)")
        case True
        from Suc.prems have m: "map call_id (fetch_log st) = expanded_uris st"
          and d: "distinct (expanded_uris st)"
          by (simp_all add: log_inv_def)
        have agree: "map call_id (fetch_log st @ [(depth, name, uri)])
                = expanded_uris st @ [entity_id_of uri]"
          by (simp add: m call_id_def)
        have dexp: "distinct (expanded_uris st @ [entity_id_of uri])"
          using d True by simp
        then have fresh: "distinct (map call_id (fetch_log st @ [(depth, name, uri)]))"
          by (simp only: agree)
        have eq: "expand_batch http api_key detect max_depth (Suc k) depth st =
            (case get_relations http api_key detect depth name uri 1 (graph st) of
               Inl e \<Rightarrow> Inl (e, fetch_log st @ [(depth, name, uri)])
             | Inr (kids, g') \<Rightarrow>
                 expand_batch http api_key detect max_depth k depth
                   \<lparr>frontier = rest @ kids,
                    expanded_uris = expanded_uris st @ [entity_id_of uri],
                    graph = g',
                    fetch_log = fetch_log st @ [(depth, name, uri)]\<rparr>)"
          using True Cons p Some by (simp add: Let_def)
        show ?thesis
        proof (cases "get_relations http api_key detect depth name uri 1 (graph st)")
          case (Inl e)
          have "outcome_log_inv (Inl (e, fetch_log st @ [(depth, name, uri)]))"
            using fresh by (simp only: outcome_log_inv.simps)
          then show ?thesis by (simp only: eq Inl sum.case)
        next
          case (Inr r)
          obtain kids g' where r: "r = (kids, g')" by (cases r)
          let ?st = "\<lparr>frontier = rest @ kids,
                      expanded_uris = expanded_uris st @ [entity_id_of uri],
                      graph = g',
                      fetch_log = fetch_log st @ [(depth, name, uri)]\<rparr>"
          have "log_inv ?st"
            unfolding log_inv_def
            by (simp only: crawl_state.select_convs agree dexp simp_thms)
          then have "outcome_log_inv (expand_batch http api_key detect max_depth k depth ?st)"
            by (rule Suc.IH)
          then show ?thesis by (simp only: eq Inr r sum.case prod.case)
        qed
      next
        case False
        have "log_inv (st\<lparr>frontier := rest\<rparr>)"
          using Suc.prems by (simp add: log_inv_def)
        then have "outcome_log_inv (expand_batch http api_key detect max_depth k depth
            (st\<lparr>frontier := rest\<rparr>))"
          by (rule Suc.IH)
        with False Cons p Some show ?thesis by (auto simp: Let_def)
      qed
    qed
  qed
qed

lemma crawl_loop_log:
  "log_inv st \<Longrightarrow> outcome_log_inv (crawl_loop http api_key detect max_depth depth st)"
proof (induction http api_key detect max_depth depth st rule: crawl_loop.induct)
  case (1 http api_key detect max_depth depth st)
  show ?case
  proof (cases "depth \<le> max_depth")
    case True
    have b: "outcome_log_inv
        (expand_batch http api_key detect max_depth (length (frontier st)) depth st)"
      using "1.prems" by (rule expand_batch_log)
    show ?thesis
    proof (cases "expand_batch http api_key detect max_depth (length (frontier st)) depth st")
      case (Inl e)
      with b True show ?thesis by (subst crawl_loop.simps) simp
    next
      case (Inr st1)
      with b have "log_inv st1" by simp
      with "1.IH"[OF True Inr] Inr True show ?thesis
        by (subst crawl_loop.simps) simp
    qed
  next
    case False
    with "1.prems" show ?thesis by (subst crawl_loop.simps) simp
  qed
qed

lemma main_Completed:
  "main http_search http_relations api_key detect term_name max_depth = Completed st
   \<Longrightarrow> \<exists>n u. crawl_loop http_relations api_key detect max_depth 0 (initial_state n u) = Inr st"
  by (auto simp: main_def split: sum.splits option.splits if_splits prod.splits)

text \<open>
  Claim C5. Within one run, no entity id (the last \<open>/\<close>-separated segment of the URI) is
  passed to \<open>get_relations\<close> twice, however often a node with that id is enqueued. This
  holds for every run: completed, crashed, or ended by a term that was not found.
\<close>

theorem entity_id_fetched_at_most_once:
  "distinct (map call_id
     (relation_fetches (main http_search http_relations api_key detect term_name max_depth)))"
proof (cases "find_uri_from_name http_search api_key term_name")
  case (Inl e)
  then show ?thesis by (simp add: main_def)
next
  case (Inr r)
  obtain name_start uri_start where r: "r = (name_start, uri_start)" by (cases r)
  show ?thesis
  proof (cases "\<exists>n u. name_start = Some n \<and> uri_start = Some u \<and> n \<noteq> [] \<and> u \<noteq> []")
    case True
    then obtain n u where nu: "name_start = Some n" "uri_start = Some u" "n \<noteq> []" "u \<noteq> []"
      by blast
    have "log_inv (initial_state n u)"
      by (simp add: log_inv_def initial_state_def)
    then have "outcome_log_inv (crawl_loop http_relations api_key detect max_depth 0
        (initial_state n u))"
      by (rule crawl_loop_log)
    then show ?thesis
      using Inr r nu
      by (cases "crawl_loop http_relations api_key detect max_depth 0 (initial_state n u)")
         (auto simp: main_def log_inv_def)
  next
    case False
    then have "main http_search http_relations api_key detect term_name max_depth = TermNotFound"
      using Inr r by (auto simp: main_def split: option.splits)
    then show ?thesis by simp
  qed
qed

lemma run1: "main search1 relations1 ''K'' detect_sample ''MI'' 2 = Completed final1"
  by code_simp

text \<open>
  On service 1 the id C2 is enqueued twice, under two URIs, and fetched once.
\<close>

theorem entity_id_fetched_at_most_once_witness:
  "main search1 relations1 ''K'' detect_sample ''MI'' 2 = Completed final1
   \<and> map call_id (relation_fetches (Completed final1)) = [''C1'', ''C2'', ''C3'']
   \<and> distinct (map call_id (relation_fetches (Completed final1)))"
proof -
  have "map call_id (fetch_log final1) = [''C1'', ''C2'', ''C3'']"
    by code_simp
  then show ?thesis
    using entity_id_fetched_at_most_once
      [of search1 relations1 "''K''" detect_sample "''MI''" 2]
    by (simp add: run1)
qed

subsection \<open>Edge depths\<close>

lemma depth_inv_add_edge:
  "e_depth d \<le> max_depth \<Longrightarrow> depth_inv max_depth g \<Longrightarrow> depth_inv max_depth (add_edge u v d g)"
  by (auto simp: depth_inv_def graph_inv_add_edge edge_data_of_add_edge split: if_splits)

lemma depth_inv_empty: "depth_inv max_depth []"
  by (simp add: depth_inv_def graph_inv_def edge_data_of_def)

text \<open>
  Claim C4. When a crawl runs to completion, every edge of the final graph carries a depth
  of at most \<open>max_depth\<close>. This holds for every \<open>max_depth\<close>, negative ones
  included (then no batch runs and the graph is empty).
\<close>

theorem edge_depth_at_most_max_depth:
  assumes "main http_search http_relations api_key detect term_name max_depth = Completed st"
  shows "\<forall>(u, v, d) \<in> set (edges (graph st)). e_depth d \<le> max_depth"
proof -
  from assms obtain n u where
    c: "crawl_loop http_relations api_key detect max_depth 0 (initial_state n u) = Inr st"
    by (blast dest: main_Completed)
  have "depth_inv max_depth (graph (initial_state n u))"
    by (simp add: initial_state_def depth_inv_empty)
  with depth_inv_add_edge have "depth_inv max_depth (graph st)"
    using c by (rule crawl_loop_graph[where P="depth_inv max_depth"])
  then show ?thesis
    by (auto simp: depth_inv_def edges_iff)
qed

text \<open>The five edges of the crawl of service 1 with \<open>max_depth = 2\<close>.\<close>

theorem edge_depth_at_most_max_depth_witness:
  "main search1 relations1 ''K'' detect_sample ''MI'' 2 = Completed final1
   \<and> map (\<lambda>(u, v, d). e_depth d) (edges (graph final1)) = [0, 0, 1, 1, 1]
   \<and> list_all (\<lambda>(u, v, d). e_depth d \<le> 2) (edges (graph final1))"
proof -
  have "map (\<lambda>(u, v, d). e_depth d) (edges (graph final1)) = [0, 0, 1, 1, 1]"
    by code_simp
  then show ?thesis
    using edge_depth_at_most_max_depth [OF run1]
    by (simp add: run1 list_all_iff)
qed

subsection \<open>One edge per ordered pair\<close>

lemma graph_inv_empty: "graph_inv []"
  by (simp add: graph_inv_def)

lemma crawl_graph_inv:
  assumes "main http_search http_relations api_key detect term_name max_depth = Completed st"
  shows "graph_inv (graph st)"
proof -
  from assms obtain n u where
    c: "crawl_loop http_relations api_key detect max_depth 0 (initial_state n u) = Inr st"
    by (blast dest: main_Completed)
  have "graph_inv (graph (initial_state n u))"
    by (simp add: initial_state_def graph_inv_empty)
  with graph_inv_add_edge show ?thesis
    using c by (rule crawl_loop_graph[where P=graph_inv])
qed

lemma last_recorded_Nil: "last_recorded [] u v = None"
  by (simp add: last_recorded_def)

lemma last_recorded_append:
  "last_recorded (xs @ ys) u v =
     (case last_recorded ys u v of Some d \<Rightarrow> Some d | None \<Rightarrow> last_recorded xs u v)"
  by (simp add: last_recorded_def Let_def)

lemma last_recorded_single:
  "last_recorded [(a, b, d)] u v = (if a = u \<and> b = v then Some d else None)"
  by (simp add: last_recorded_def edge_pair_def)

lemma relations_loop_last:
  assumes "relations_loop detect depth name infos kids g = Inr (kids', g')"
  shows "edge_data_of g' u v =
     (case last_recorded (recorded detect depth name infos) u v of
        Some d \<Rightarrow> Some d
      | None \<Rightarrow> edge_data_of g u v)"
  using assms
proof (induction infos arbitrary: kids g)
  case Nil
  then show ?case by (simp add: recorded_def last_recorded_Nil)
next
  case (Cons info rest)
  from Cons.prems obtain lang where lang: "detect (relatedIdName info) = Inr lang"
    by (cases "detect (relatedIdName info)") auto
  show ?case
  proof (cases "lang = ''en''")
    case True
    with Cons.prems lang obtain w where w: "relatedIdName info = Some w"
      by (cases "relatedIdName info") auto
    have r: "relations_loop detect depth name rest (kids @ [(w, relatedId info)])
           (add_edge name w (edge_of_record depth info) g) = Inr (kids', g')"
      using Cons.prems lang True w by (simp add: edge_of_record_def)
    have rec: "recorded detect depth name (info # rest)
        = [(name, w, edge_of_record depth info)] @ recorded detect depth name rest"
      using lang True w by (simp add: recorded_def english_def)
    show ?thesis
      unfolding rec last_recorded_append Cons.IH[OF r]
      by (simp add: last_recorded_single edge_data_of_add_edge split: option.splits)
  next
    case False
    have r: "relations_loop detect depth name rest kids g = Inr (kids', g')"
      using Cons.prems lang False by simp
    have rec: "recorded detect depth name (info # rest) = recorded detect depth name rest"
      using lang False by (auto simp: recorded_def english_def split: option.splits)
    show ?thesis
      unfolding rec by (rule Cons.IH[OF r])
  qed
qed

lemma get_relations_last:
  assumes "get_relations http api_key detect depth name uri 1 g = Inr (kids, g')"
  shows "edge_data_of g' u v =
     (case last_recorded (recorded detect depth name (page_of http api_key uri)) u v of
        Some d \<Rightarrow> Some d
      | None \<Rightarrow> edge_data_of g u v)"
proof -
  from assms have "relations_loop detect depth name (page_of http api_key uri) [] g
      = Inr (kids, g')"
    by (auto simp: get_relations_def page_of_def Let_def split: option.splits)
  then show ?thesis by (rule relations_loop_last)
qed

lemma rec_inv_step:
  assumes "rec_inv http api_key detect g calls"
    and "get_relations http api_key detect depth name uri 1 g = Inr (kids, g')"
  shows "rec_inv http api_key detect g' (calls @ [(depth, name, uri)])"
proof -
  have eq: "recordings http api_key detect (calls @ [(depth, name, uri)])
      = recordings http api_key detect calls
        @ recorded detect depth name (page_of http api_key uri)"
    by (simp add: recordings_def)
  show ?thesis
    unfolding rec_inv_def
  proof (intro allI)
    fix u v
    from assms(1) have e: "edge_data_of g u v
        = last_recorded (recordings http api_key detect calls) u v"
      by (simp add: rec_inv_def)
    show "edge_data_of g' u v
        = last_recorded (recordings http api_key detect (calls @ [(depth, name, uri)])) u v"
      by (simp only: eq last_recorded_append get_relations_last[OF assms(2)] e)
  qed
qed

lemma expand_batch_calls:
  assumes step: "\<And>g calls name uri kids g'.
        J g calls \<Longrightarrow> get_relations http api_key detect depth name uri 1 g = Inr (kids, g')
        \<Longrightarrow> J g' (calls @ [(depth, name, uri)])"
    and "J (graph st) (fetch_log st)"
    and "expand_batch http api_key detect max_depth k depth st = Inr st'"
  shows "J (graph st') (fetch_log st')"
  using assms(2,3)
proof (induction k arbitrary: st)
  case 0
  then show ?case by simp
next
  case (Suc k)
  from Suc.prems(2) obtain name uri rest where
    fr: "frontier st = (name, Some uri) # rest"
    by (auto split: list.splits option.splits)
  show ?case
  proof (cases "depth \<le> max_depth \<and> entity_id_of uri \<notin> set (expanded_uris st)")
    case True
    let ?st = "\<lambda>kids g'. \<lparr>frontier = rest @ kids,
          expanded_uris = expanded_uris st @ [entity_id_of uri],
          graph = g',
          fetch_log = fetch_log st @ [(depth, name, uri)]\<rparr>"
    from True Suc.prems(2) fr obtain kids g' where
      gr: "get_relations http api_key detect depth name uri 1 (graph st) = Inr (kids, g')"
      and rec: "expand_batch http api_key detect max_depth k depth (?st kids g') = Inr st'"
      by (auto simp: Let_def split: sum.splits)
    have "J g' (fetch_log st @ [(depth, name, uri)])"
      using Suc.prems(1) gr by (rule step)
    then have "J (graph (?st kids g')) (fetch_log (?st kids g'))" by simp
    then show ?thesis using rec by (rule Suc.IH)
  next
    case False
    with Suc.prems(2) fr have
      "expand_batch http api_key detect max_depth k depth (st\<lparr>frontier := rest\<rparr>) = Inr st'"
      by (auto simp: Let_def)
    moreover have "J (graph (st\<lparr>frontier := rest\<rparr>)) (fetch_log (st\<lparr>frontier := rest\<rparr>))"
      using Suc.prems(1) by simp
    ultimately show ?thesis using Suc.IH by blast
  qed
qed

lemma crawl_loop_calls:
  assumes "\<And>g calls depth name uri kids g'.
        J g calls \<Longrightarrow> get_relations http api_key detect depth name uri 1 g = Inr (kids, g')
        \<Longrightarrow> J g' (calls @ [(depth, name, uri)])"
    and "J (graph st) (fetch_log st)"
    and "crawl_loop http api_key detect max_depth depth st = Inr st'"
  shows "J (graph st') (fetch_log st')"
  using assms
proof (induction http api_key detect max_depth depth st rule: crawl_loop.induct)
  case (1 http api_key detect max_depth depth st)
  note step = "1.prems"(1)
  show ?case
  proof (cases "depth \<le> max_depth")
    case True
    with "1.prems"(3) obtain st1 where
      b: "expand_batch http api_key detect max_depth (length (frontier st)) depth st = Inr st1"
      and r: "crawl_loop http api_key detect max_depth (depth + 1) st1 = Inr st'"
      by (subst (asm) crawl_loop.simps) (simp split: sum.splits)
    have "J (graph st1) (fetch_log st1)"
    proof (rule expand_batch_calls[where J=J, OF _ "1.prems"(2) b])
      fix g calls name uri kids g'
      assume "J g calls"
        "get_relations http api_key detect depth name uri 1 g = Inr (kids, g')"
      then show "J g' (calls @ [(depth, name, uri)])" by (rule step)
    qed
    with "1.IH"[OF True b step] r show ?thesis by simp
  next
    case False
    with "1.prems" show ?thesis by (subst (asm) crawl_loop.simps) simp
  qed
qed

lemma crawl_rec_inv:
  assumes "main http_search http_relations api_key detect term_name max_depth = Completed st"
  shows "rec_inv http_relations api_key detect (graph st) (fetch_log st)"
proof -
  from assms obtain n u where
    c: "crawl_loop http_relations api_key detect max_depth 0 (initial_state n u) = Inr st"
    by (blast dest: main_Completed)
  have i: "rec_inv http_relations api_key detect (graph (initial_state n u))
      (fetch_log (initial_state n u))"
    by (simp add: initial_state_def rec_inv_def recordings_def last_recorded_Nil
        edge_data_of_def)
  show ?thesis
  proof (rule crawl_loop_calls[where J="rec_inv http_relations api_key detect", OF _ i c])
    fix g calls depth name uri kids g'
    assume "rec_inv http_relations api_key detect g calls"
      "get_relations http_relations api_key detect depth name uri 1 g = Inr (kids, g')"
    then show "rec_inv http_relations api_key detect g' (calls @ [(depth, name, uri)])"
      by (rule rec_inv_step)
  qed
qed

text \<open>
  Claim C6. The empty graph has at most one edge per ordered (source, target) pair, and
  \<open>add_edge\<close>, the only operation the crawl applies to the graph, keeps it so; after
  \<open>add_edge u v d\<close> the edge of the pair \<open>(u, v)\<close> carries exactly the new label, URI
  and depth, whatever it carried before, and every other pair has the edge it had. In
  the graph of a completed crawl there is at most one edge per pair, and the edges are
  exactly the pairs that some fetch of the run recorded, each with the label, URI and depth
  of the last recording of that pair in the run.
\<close>

theorem one_edge_per_pair_last_write_wins:
  "distinct (map edge_pair (edges []))
   \<and> (graph_inv g \<longrightarrow>
        graph_inv (add_edge u v d g)
        \<and> distinct (map edge_pair (edges (add_edge u v d g)))
        \<and> (\<forall>d'. (u, v, d') \<in> set (edges (add_edge u v d g)) \<longleftrightarrow> d' = d)
        \<and> (\<forall>u' v' d'. (u', v') \<noteq> (u, v) \<longrightarrow>
              ((u', v', d') \<in> set (edges (add_edge u v d g)) \<longleftrightarrow> (u', v', d') \<in> set (edges g))))
   \<and> (main http_search http_relations api_key detect term_name max_depth = Completed st \<longrightarrow>
        graph_inv (graph st) \<and> distinct (map edge_pair (edges (graph st)))
        \<and> (\<forall>a b x. (a, b, x) \<in> set (edges (graph st)) \<longleftrightarrow>
              last_recorded (recordings http_relations api_key detect (fetch_log st)) a b
                = Some x))"
proof (intro conjI impI allI)
  show "distinct (map edge_pair (edges []))"
    by (simp add: edges_def)
next
  assume g: "graph_inv g"
  then show g': "graph_inv (add_edge u v d g)"
    by (rule graph_inv_add_edge)
  then show "distinct (map edge_pair (edges (add_edge u v d g)))"
    by (rule distinct_edge_pairs)
  show "(u, v, d') \<in> set (edges (add_edge u v d g)) \<longleftrightarrow> d' = d" for d'
    using g' by (auto simp: edges_iff edge_data_of_add_edge)
  show "(u', v', d') \<in> set (edges (add_edge u v d g)) \<longleftrightarrow> (u', v', d') \<in> set (edges g)"
    if "(u', v') \<noteq> (u, v)" for u' v' d'
    using g g' that by (auto simp: edges_iff edge_data_of_add_edge)
next
  assume m: "main http_search http_relations api_key detect term_name max_depth = Completed st"
  then show inv: "graph_inv (graph st)"
    by (rule crawl_graph_inv)
  then show "distinct (map edge_pair (edges (graph st)))"
    by (rule distinct_edge_pairs)
  show "(a, b, x) \<in> set (edges (graph st)) \<longleftrightarrow>
      last_recorded (recordings http_relations api_key detect (fetch_log st)) a b = Some x"
    for a b x
    using crawl_rec_inv[OF m] inv by (simp add: edges_iff rec_inv_def)
qed

lemma run7: "main search7 relations7 ''K'' detect_sample ''Cold'' 2 = Completed final7"
  by code_simp

text \<open>
  On service 7 the pair (Cold, Flu) is recorded three times, twice by the first fetch and
  once by the third; the final graph has one edge for it, with the label, URI and depth
  of the third recording. Recording MI \<open>\<rightarrow>\<close> ACS again on the final graph of service 1
  replaces the first edge in place.
\<close>

theorem one_edge_per_pair_last_write_wins_witness:
  "main search7 relations7 ''K'' detect_sample ''Cold'' 2 = Completed final7
   \<and> recordings relations7 ''K'' detect_sample (fetch_log final7)
       = [(''Cold'', ''Flu'',
            \<lparr>e_label = ''related_to()'', e_uri = Some ''https://u/C31'', e_depth = 0\<rparr>),
          (''Cold'', ''Flu'',
            \<lparr>e_label = ''may_cause()'', e_uri = Some ''https://w/C31'', e_depth = 0\<rparr>),
          (''Flu'', ''Cold'',
            \<lparr>e_label = ''differs_from()'', e_uri = Some ''https://u/C32'', e_depth = 1\<rparr>),
          (''Cold'', ''Flu'',
            \<lparr>e_label = ''associated_with()'', e_uri = Some ''https://v/C31'', e_depth = 2\<rparr>)]
   \<and> edges (graph final7)
       = [(''Cold'', ''Flu'',
            \<lparr>e_label = ''associated_with()'', e_uri = Some ''https://v/C31'', e_depth = 2\<rparr>),
          (''Flu'', ''Cold'',
            \<lparr>e_label = ''differs_from()'', e_uri = Some ''https://u/C32'', e_depth = 1\<rparr>)]
   \<and> last_recorded (recordings relations7 ''K'' detect_sample (fetch_log final7)) ''Cold'' ''Flu''
       = Some \<lparr>e_label = ''associated_with()'', e_uri = Some ''https://v/C31'', e_depth = 2\<rparr>
   \<and> (''Cold'', ''Flu'',
         \<lparr>e_label = ''associated_with()'', e_uri = Some ''https://v/C31'', e_depth = 2\<rparr>)
       \<in> set (edges (graph final7))
   \<and> distinct (map edge_pair (edges (graph final7)))
   \<and> graph_inv (graph final1)
   \<and> distinct (map edge_pair
         (edges (add_edge ''MI'' ''ACS''
            \<lparr>e_label = ''isa()'', e_uri = Some ''https://w/C2'', e_depth = 2\<rparr> (graph final1))))
   \<and> (''MI'', ''ACS'', \<lparr>e_label = ''isa()'', e_uri = Some ''https://w/C2'', e_depth = 2\<rparr>)
       \<in> set (edges (add_edge ''MI'' ''ACS''
            \<lparr>e_label = ''isa()'', e_uri = Some ''https://w/C2'', e_depth = 2\<rparr> (graph final1)))
   \<and> (''MI'', ''ACS'', \<lparr>e_label = ''related_to()'', e_uri = Some ''https://u/C2'', e_depth = 0\<rparr>)
       \<notin> set (edges (add_edge ''MI'' ''ACS''
            \<lparr>e_label = ''isa()'', e_uri = Some ''https://w/C2'', e_depth = 2\<rparr> (graph final1)))"
proof -
  have 1: "graph_inv (graph final1)"
    by code_simp
  have 2: "recordings relations7 ''K'' detect_sample (fetch_log final7)
       = [(''Cold'', ''Flu'',
            \<lparr>e_label = ''related_to()'', e_uri = Some ''https://u/C31'', e_depth = 0\<rparr>),
          (''Cold'', ''Flu'',
            \<lparr>e_label = ''may_cause()'', e_uri = Some ''https://w/C31'', e_depth = 0\<rparr>),
          (''Flu'', ''Cold'',
            \<lparr>e_label = ''differs_from()'', e_uri = Some ''https://u/C32'', e_depth = 1\<rparr>),
          (''Cold'', ''Flu'',
            \<lparr>e_label = ''associated_with()'', e_uri = Some ''https://v/C31'', e_depth = 2\<rparr>)]"
    by code_simp
  have 3: "edges (graph final7)
       = [(''Cold'', ''Flu'',
            \<lparr>e_label = ''associated_with()'', e_uri = Some ''https://v/C31'', e_depth = 2\<rparr>),
          (''Flu'', ''Cold'',
            \<lparr>e_label = ''differs_from()'', e_uri = Some ''https://u/C32'', e_depth = 1\<rparr>)]"
    by code_simp
  have 4: "last_recorded (recordings relations7 ''K'' detect_sample (fetch_log final7))
        ''Cold'' ''Flu''
       = Some \<lparr>e_label = ''associated_with()'', e_uri = Some ''https://v/C31'', e_depth = 2\<rparr>"
    by code_simp
  note t = one_edge_per_pair_last_write_wins
      [of "graph final1" "''MI''" "''ACS''"
          "\<lparr>e_label = ''isa()'', e_uri = Some ''https://w/C2'', e_depth = 2\<rparr>"
          search7 relations7 "''K''" detect_sample "''Cold''" 2 final7]
  from t run7 have a: "distinct (map edge_pair (edges (graph final7)))"
    and b: "(''Cold'', ''Flu'',
         \<lparr>e_label = ''associated_with()'', e_uri = Some ''https://v/C31'', e_depth = 2\<rparr>)
       \<in> set (edges (graph final7))"
    using 4 by blast+
  from t 1 have c: "distinct (map edge_pair
         (edges (add_edge ''MI'' ''ACS''
            \<lparr>e_label = ''isa()'', e_uri = Some ''https://w/C2'', e_depth = 2\<rparr> (graph final1))))"
    and d: "\<forall>d'. (''MI'', ''ACS'', d')
        \<in> set (edges (add_edge ''MI'' ''ACS''
            \<lparr>e_label = ''isa()'', e_uri = Some ''https://w/C2'', e_depth = 2\<rparr> (graph final1)))
        \<longleftrightarrow> d' = \<lparr>e_label = ''isa()'', e_uri = Some ''https://w/C2'', e_depth = 2\<rparr>"
    by blast+
  from d have e: "(''MI'', ''ACS'', \<lparr>e_label = ''isa()'', e_uri = Some ''https://w/C2'', e_depth = 2\<rparr>)
       \<in> set (edges (add_edge ''MI'' ''ACS''
            \<lparr>e_label = ''isa()'', e_uri = Some ''https://w/C2'', e_depth = 2\<rparr> (graph final1)))"
    and f: "(''MI'', ''ACS'', \<lparr>e_label = ''related_to()'', e_uri = Some ''https://u/C2'', e_depth = 0\<rparr>)
       \<notin> set (edges (add_edge ''MI'' ''ACS''
            \<lparr>e_label = ''isa()'', e_uri = Some ''https://w/C2'', e_depth = 2\<rparr> (graph final1)))"
    by simp_all
  show ?thesis
    by (intro conjI run7 1 2 3 4 a b c e f)
qed

subsection \<open>Nodes and edges\<close>

lemma endpoint_inv_add_edge:
  assumes "endpoint_inv g"
  shows "endpoint_inv (add_edge u v d g)"
proof -
  from assms have inv: "graph_inv g"
    and ends: "\<And>n. n \<in> set (nodes g) \<Longrightarrow>
        \<exists>u' v' d'. edge_data_of g u' v' = Some d' \<and> (n = u' \<or> n = v')"
    by (auto simp: endpoint_inv_def)
  have "\<exists>u' v' d'. edge_data_of (add_edge u v d g) u' v' = Some d' \<and> (n = u' \<or> n = v')"
    if n: "n \<in> set (nodes (add_edge u v d g))" for n
  proof (cases "n = u \<or> n = v")
    case True
    have "edge_data_of (add_edge u v d g) u v = Some d"
      by (simp add: edge_data_of_add_edge)
    with True show ?thesis by blast
  next
    case False
    with n have "n \<in> set (nodes g)" by (simp add: nodes_add_edge)
    then obtain u' v' d' where e: "edge_data_of g u' v' = Some d'" "n = u' \<or> n = v'"
      using ends by blast
    have "\<exists>d''. edge_data_of (add_edge u v d g) u' v' = Some d''"
      using e(1) by (simp add: edge_data_of_add_edge)
    with e(2) show ?thesis by blast
  qed
  with inv show ?thesis
    by (simp add: endpoint_inv_def graph_inv_add_edge)
qed

lemma endpoint_inv_empty: "endpoint_inv []"
  by (simp add: endpoint_inv_def graph_inv_def nodes_def)

text \<open>
  Claim C10. In the graph of a completed crawl every node is the source or the target of
  an edge. So when no relation record was recorded as an edge, the graph has no node, the
  seed included, and the relationship listing is empty.
\<close>

theorem every_node_is_an_endpoint:
  assumes "main http_search http_relations api_key detect term_name max_depth = Completed st"
  shows "(\<forall>n \<in> set (nodes (graph st)). \<exists>(u, v, d) \<in> set (edges (graph st)). n = u \<or> n = v)
       \<and> (edges (graph st) = [] \<longrightarrow> nodes (graph st) = [] \<and> relationships_txt (graph st) = [])"
proof -
  from assms obtain n u where
    c: "crawl_loop http_relations api_key detect max_depth 0 (initial_state n u) = Inr st"
    by (blast dest: main_Completed)
  have "endpoint_inv (graph (initial_state n u))"
    by (simp add: initial_state_def endpoint_inv_empty)
  with endpoint_inv_add_edge have "endpoint_inv (graph st)"
    using c by (rule crawl_loop_graph[where P=endpoint_inv])
  then have inv: "graph_inv (graph st)"
    and ends: "\<And>n. n \<in> set (nodes (graph st)) \<Longrightarrow>
        \<exists>u v d. edge_data_of (graph st) u v = Some d \<and> (n = u \<or> n = v)"
    by (auto simp: endpoint_inv_def)
  have 1: "\<exists>(u, v, d) \<in> set (edges (graph st)). n = u \<or> n = v"
    if "n \<in> set (nodes (graph st))" for n
    using ends[OF that] inv by (auto simp: edges_iff[symmetric])
  have 2: "nodes (graph st) = []" if e: "edges (graph st) = []"
  proof (cases "nodes (graph st)")
    case Nil
    then show ?thesis .
  next
    case (Cons n ns)
    then have "n \<in> set (nodes (graph st))" by simp
    from 1[OF this] e show ?thesis by simp
  qed
  have 3: "relationships_txt (graph st) = []" if "edges (graph st) = []"
    using that by (simp add: relationships_txt_def relationships_def)
  from 1 2 3 show ?thesis by blast
qed

lemma run3: "main search1 relations3 ''K'' detect_sample ''MI'' 2 = Completed final3"
  by code_simp

text \<open>
  On service 1 each of the three nodes has an edge; on service 3 nothing is recorded and
  the graph has no node, although MI was expanded.
\<close>

theorem every_node_is_an_endpoint_witness:
  "main search1 relations1 ''K'' detect_sample ''MI'' 2 = Completed final1
   \<and> nodes (graph final1) = [''MI'', ''ACS'', ''Angina'']
   \<and> list_all (\<lambda>n. list_ex (\<lambda>(u, v, d). n = u \<or> n = v) (edges (graph final1)))
        (nodes (graph final1))
   \<and> main search1 relations3 ''K'' detect_sample ''MI'' 2 = Completed final3
   \<and> fetch_log final3 = [(0, ''MI'', ''https://u/C1'')]
   \<and> edges (graph final3) = []
   \<and> nodes (graph final3) = []
   \<and> relationships_txt (graph final3) = []"
proof -
  have 1: "nodes (graph final1) = [''MI'', ''ACS'', ''Angina'']"
    by code_simp
  have 2: "edges (graph final3) = []"
    by code_simp
  have 3: "fetch_log final3 = [(0, ''MI'', ''https://u/C1'')]"
    by (simp add: final3_def)
  show ?thesis
    using every_node_is_an_endpoint [OF run1] every_node_is_an_endpoint [OF run3] 1 2 3
    by (simp add: run1 run3 list_all_iff list_ex_iff)
qed

subsection \<open>Term resolution\<close>

text \<open>
  Claim C9. When the search request fails (a status other than 200) or its body has an empty
  results array, \<open>find_uri_from_name\<close> returns \<open>(None, None)\<close> instead of a name and a
  URI, \<open>main\<close> takes the branch without a crawl, and \<open>get_relations\<close> is not called,
  whatever the relations service would answer.
\<close>

theorem term_not_found_aborts:
  assumes "url = ''https://uts-ws.nlm.nih.gov/rest/search/current?string=''
                 @ join ''+'' (split_char CHR '' '' term_name) @ ''&apiKey='' @ api_key"
    and "fst (http_search url) \<noteq> 200
         \<or> (\<exists>res. s_result (snd (http_search url)) = Some res \<and> results res = Some [])"
  shows "find_uri_from_name http_search api_key term_name = Inr (None, None)
       \<and> main http_search http_relations api_key detect term_name max_depth = TermNotFound
       \<and> relation_fetches
           (main http_search http_relations api_key detect term_name max_depth) = []"
proof -
  have "find_uri_from_name http_search api_key term_name = Inr (None, None)"
    using assms by (auto simp: find_uri_from_name_def get_request_def Let_def)
  then show ?thesis
    by (simp add: main_def)
qed

text \<open>
  The search for MX fails on search service 1 and returns no result on search service 2.
\<close>

theorem term_not_found_aborts_witness:
  "fst (search1 (search_url ''MX'')) = 404
   \<and> main search1 relations1 ''K'' detect_sample ''MX'' 2 = TermNotFound
   \<and> snd (search2 (search_url ''MX'')) = \<lparr>s_result = Some \<lparr>results = Some []\<rparr>\<rparr>
   \<and> find_uri_from_name search2 ''K'' ''MX'' = Inr (None, None)
   \<and> main search2 relations1 ''K'' detect_sample ''MX'' 2 = TermNotFound
   \<and> relation_fetches (main search2 relations1 ''K'' detect_sample ''MX'' 2) = []"
proof -
  have u: "search_url ''MX'' = ''https://uts-ws.nlm.nih.gov/rest/search/current?string=''
                 @ join ''+'' (split_char CHR '' '' ''MX'') @ ''&apiKey='' @ ''K''"
    by (simp add: search_url_def)
  have 1: "fst (search1 (search_url ''MX'')) = 404"
    by code_simp
  have 2: "snd (search2 (search_url ''MX'')) = \<lparr>s_result = Some \<lparr>results = Some []\<rparr>\<rparr>"
    by code_simp
  have 3: "fst (search1 (search_url ''MX'')) \<noteq> 200
         \<or> (\<exists>res. s_result (snd (search1 (search_url ''MX''))) = Some res \<and> results res = Some [])"
    using 1 by simp
  have 4: "fst (search2 (search_url ''MX'')) \<noteq> 200
         \<or> (\<exists>res. s_result (snd (search2 (search_url ''MX''))) = Some res \<and> results res = Some [])"
    using 2 by simp
  show ?thesis
    using term_not_found_aborts
        [where url = "search_url ''MX''" and term_name = "''MX''" and api_key = "''K''"
           and http_search = search1 and http_relations = relations1
           and detect = detect_sample and max_depth = 2, OF u 3]
      term_not_found_aborts
        [where url = "search_url ''MX''" and term_name = "''MX''" and api_key = "''K''"
           and http_search = search2 and http_relations = relations1
           and detect = detect_sample and max_depth = 2, OF u 4]
      1 2
    by simp
qed

subsection \<open>Depth values\<close>

lemma node_depth_step_apply:
  "node_depth_step nd e n =
     (case nd n of Some d \<Rightarrow> Some d
      | None \<Rightarrow> if incident n e then Some (e_depth (snd (snd e))) else None)"
  by (cases e) (auto simp: node_depth_step_def incident_def Let_def split: option.splits)

lemma foldl_node_depth_step:
  "foldl node_depth_step nd es n =
     (case nd n of Some d \<Rightarrow> Some d
      | None \<Rightarrow> (case filter (incident n) es of [] \<Rightarrow> None
                 | e # _ \<Rightarrow> Some (e_depth (snd (snd e)))))"
proof (induction es arbitrary: nd)
  case Nil
  then show ?case by (simp split: option.splits)
next
  case (Cons e es)
  have "foldl node_depth_step nd (e # es) n = foldl node_depth_step (node_depth_step nd e) es n"
    by simp
  also have "\<dots> =
     (case node_depth_step nd e n of Some d \<Rightarrow> Some d
      | None \<Rightarrow> (case filter (incident n) es of [] \<Rightarrow> None
                 | e # _ \<Rightarrow> Some (e_depth (snd (snd e)))))"
    by (rule Cons.IH)
  also have "\<dots> =
     (case nd n of Some d \<Rightarrow> Some d
      | None \<Rightarrow> (case filter (incident n) (e # es) of [] \<Rightarrow> None
                 | e # _ \<Rightarrow> Some (e_depth (snd (snd e)))))"
    by (simp add: node_depth_step_apply split: option.splits)
  finally show ?case .
qed

lemma depth_value_first: "depth_value g n = first_incident_depth g n"
  by (simp add: depth_value_def node_depth_def foldl_node_depth_step first_incident_depth_def
      incident_depths_def split: list.splits)

lemma fold_min_sorted: "sorted (d # ds) \<Longrightarrow> fold min ds d = (d::int)"
  by (induction ds) (auto simp: min_def)

lemma first_is_min_when_sorted:
  assumes "sorted (map (\<lambda>e. e_depth (snd (snd e))) (edges g))"
  shows "first_incident_depth g n = min_incident_depth g n"
proof -
  have "sorted (incident_depths g n)"
    unfolding incident_depths_def using assms
    by (simp add: sorted_wrt_filter sorted_wrt_map)
  then show ?thesis
    by (auto simp: first_incident_depth_def min_incident_depth_def fold_min_sorted
        split: list.splits)
qed

lemma run4: "main search4 relations4 ''K'' detect_sample ''Cold'' 2 = Completed final4"
  by code_simp

text \<open>
  Claim C3, as stated: the depth value of a node is the minimum of the depths of all its
  incident edges. It fails on the final graph of service 4: the first edge in iteration
  order, from Cold to Flu, has depth 2, the edge back has depth 1, and both nodes get 2.
\<close>

theorem depth_value_not_minimum:
  "main search4 relations4 ''K'' detect_sample ''Cold'' 2 = Completed final4
   \<and> depth_values (graph final4) = [2, 2]
   \<and> map (min_incident_depth (graph final4)) (nodes (graph final4)) = [1, 1]
   \<and> depth_value (graph final4) ''Cold'' \<noteq> min_incident_depth (graph final4) ''Cold''"
proof -
  have 1: "map (first_incident_depth (graph final4)) (nodes (graph final4)) = [2, 2]"
    by code_simp
  have 2: "map (min_incident_depth (graph final4)) (nodes (graph final4)) = [1, 1]"
    by code_simp
  have 3: "nodes (graph final4) = [''Cold'', ''Flu'']"
    by code_simp
  from 1 2 3 show ?thesis
    by (simp add: run4 depth_values_def depth_value_first)
qed

text \<open>
  Claim C3, amended. The loop writes a node's value only while the node has none, so the
  value is the depth of the first incident edge in the graph's edge iteration order, and
  0 for a node without an edge. Where the depths of the edges do not decrease along the
  iteration order, that is the minimum over the incident edges.
\<close>

theorem depth_value_is_first_incident_depth:
  "depth_value g n = first_incident_depth g n
   \<and> depth_values g = map (first_incident_depth g) (nodes g)
   \<and> (sorted (map (\<lambda>e. e_depth (snd (snd e))) (edges g)) \<longrightarrow>
        depth_value g n = min_incident_depth g n)"
  by (simp add: depth_value_first depth_values_def first_is_min_when_sorted cong: map_cong)

text \<open>On the final graph of service 1 the depths are sorted; Angina gets 0, as MI and ACS.\<close>

theorem depth_value_is_first_incident_depth_witness:
  "map (\<lambda>e. e_depth (snd (snd e))) (edges (graph final1)) = [0, 0, 1, 1, 1]
   \<and> sorted (map (\<lambda>e. e_depth (snd (snd e))) (edges (graph final1)))
   \<and> depth_values (graph final1) = [0, 0, 0]
   \<and> depth_value (graph final1) ''Angina'' = 0
   \<and> min_incident_depth (graph final1) ''Angina'' = 0
   \<and> depth_value (graph final1) ''Nowhere'' = 0"
proof -
  have 1: "map (\<lambda>e. e_depth (snd (snd e))) (edges (graph final1)) = [0, 0, 1, 1, 1]"
    by code_simp
  have 2: "map (first_incident_depth (graph final1)) (nodes (graph final1)) = [0, 0, 0]"
    by code_simp
  have 3: "first_incident_depth (graph final1) ''Angina'' = 0"
    by code_simp
  have 4: "first_incident_depth (graph final1) ''Nowhere'' = 0"
    by code_simp
  show ?thesis
    using depth_value_is_first_incident_depth [of "graph final1" "''Angina''"]
      depth_value_is_first_incident_depth [of "graph final1" "''Nowhere''"] 1 2 3 4
    by simp
qed

subsection \<open>Language filtering\<close>

lemma relations_loop_ok:
  assumes "\<forall>info \<in> set infos. \<exists>lang. detect (relatedIdName info) = Inr lang
              \<and> (lang = ''en'' \<longrightarrow> relatedIdName info \<noteq> None)"
  shows "\<exists>kids' g'.
      relations_loop detect depth name infos kids g = Inr (kids @ kids', g')
      \<and> map (\<lambda>k. Some (fst k)) kids' = map relatedIdName (filter (english detect) infos)
      \<and> map snd kids' = map relatedId (filter (english detect) infos)
      \<and> (\<forall>u v. edge_data_of g' u v \<noteq> edge_data_of g u v \<longrightarrow>
            u = name \<and> detect (Some v) = Inr ''en'')"
  using assms
proof (induction infos arbitrary: kids g)
  case Nil
  then show ?case by simp
next
  case (Cons info rest)
  from Cons.prems obtain lang where
    lang: "detect (relatedIdName info) = Inr lang"
    and present: "lang = ''en'' \<Longrightarrow> relatedIdName info \<noteq> None"
    by auto
  from Cons.prems have rest: "\<forall>info \<in> set rest. \<exists>lang. detect (relatedIdName info) = Inr lang
              \<and> (lang = ''en'' \<longrightarrow> relatedIdName info \<noteq> None)"
    by simp
  show ?case
  proof (cases "lang = ''en''")
    case True
    with present obtain v where v: "relatedIdName info = Some v" by auto
    let ?d = "\<lparr>e_label = fmt (relationLabel info) @ ''('' @
                 fmt (additionalRelationLabel info) @ '')'',
               e_uri = relatedId info, e_depth = depth\<rparr>"
    from Cons.IH[OF rest, of "kids @ [(v, relatedId info)]" "add_edge name v ?d g"]
    obtain kids' g' where
      r: "relations_loop detect depth name rest (kids @ [(v, relatedId info)])
            (add_edge name v ?d g) = Inr ((kids @ [(v, relatedId info)]) @ kids', g')"
      and k1: "map (\<lambda>k. Some (fst k)) kids' = map relatedIdName (filter (english detect) rest)"
      and k2: "map snd kids' = map relatedId (filter (english detect) rest)"
      and e: "\<And>u w. edge_data_of g' u w \<noteq> edge_data_of (add_edge name v ?d g) u w \<Longrightarrow>
            u = name \<and> detect (Some w) = Inr ''en''"
      by blast
    have en: "english detect info"
      using lang True by (simp add: english_def)
    have "relations_loop detect depth name (info # rest) kids g
        = Inr (kids @ ((v, relatedId info) # kids'), g')"
      using r lang True v by simp
    moreover have "map (\<lambda>k. Some (fst k)) ((v, relatedId info) # kids')
        = map relatedIdName (filter (english detect) (info # rest))"
      using k1 en v by simp
    moreover have "map snd ((v, relatedId info) # kids')
        = map relatedId (filter (english detect) (info # rest))"
      using k2 en by simp
    moreover have "u = name \<and> detect (Some w) = Inr ''en''"
      if d: "edge_data_of g' u w \<noteq> edge_data_of g u w" for u w
    proof (cases "edge_data_of g' u w = edge_data_of (add_edge name v ?d g) u w")
      case True
      with d have "edge_data_of (add_edge name v ?d g) u w \<noteq> edge_data_of g u w" by simp
      then have "u = name \<and> w = v"
        by (simp add: edge_data_of_add_edge split: if_splits)
      with lang \<open>lang = ''en''\<close> v show ?thesis by simp
    next
      case False
      then show ?thesis by (rule e)
    qed
    ultimately show ?thesis by blast
  next
    case False
    from Cons.IH[OF rest, of kids g]
    obtain kids' g' where
      r: "relations_loop detect depth name rest kids g = Inr (kids @ kids', g')"
      and k1: "map (\<lambda>k. Some (fst k)) kids' = map relatedIdName (filter (english detect) rest)"
      and k2: "map snd kids' = map relatedId (filter (english detect) rest)"
      and e: "\<forall>u w. edge_data_of g' u w \<noteq> edge_data_of g u w \<longrightarrow>
            u = name \<and> detect (Some w) = Inr ''en''"
      by blast
    have en: "\<not> english detect info"
      using lang False by (simp add: english_def)
    have "relations_loop detect depth name (info # rest) kids g = Inr (kids @ kids', g')"
      using r lang False by simp
    with k1 k2 e en show ?thesis by simp
  qed
qed

lemma relations_loop_raises:
  assumes "\<exists>info \<in> set infos. \<exists>e. detect (relatedIdName info) = Inl e"
  shows "\<exists>e. relations_loop detect depth name infos kids g = Inl e"
  using assms
proof (induction infos arbitrary: kids g)
  case Nil
  then show ?case by simp
next
  case (Cons info rest)
  show ?case
  proof (cases "detect (relatedIdName info)")
    case (Inl e)
    then show ?thesis by simp
  next
    case (Inr lang)
    with Cons.prems have "\<exists>info \<in> set rest. \<exists>e. detect (relatedIdName info) = Inl e"
      by auto
    from Cons.IH[OF this] Inr show ?thesis
      by (cases "relatedIdName info") auto
  qed
qed

text \<open>
  Claim C2, as stated: language identification never raises out of the fetch, and a record
  on which it fails is dropped. The call of \<open>detect\<close> is not guarded: on service 5 the
  record with the empty name makes \<open>detect\<close> raise, \<open>get_relations\<close> raises with it and
  the run ends. So it is false that the fetch returns for every language identifier.
\<close>

theorem language_check_error_aborts_fetch:
  "detect_sample (Some []) = Inl LangDetectException
   \<and> get_relations relations5 ''K'' detect_sample 0 ''MI'' ''https://u/C1'' 1 []
       = Inl LangDetectException
   \<and> main search1 relations5 ''K'' detect_sample ''MI'' 2
       = Crashed LangDetectException [(0, ''MI'', ''https://u/C1'')]
   \<and> \<not> (\<forall>detect. \<exists>r. get_relations relations5 ''K'' detect 0 ''MI'' ''https://u/C1'' 1 []
                         = Inr r)"
proof -
  have 1: "detect_sample (Some []) = Inl LangDetectException"
    by code_simp
  have 2: "get_relations relations5 ''K'' detect_sample 0 ''MI'' ''https://u/C1'' 1 []
       = Inl LangDetectException"
    by code_simp
  have 3: "main search1 relations5 ''K'' detect_sample ''MI'' 2
       = Crashed LangDetectException [(0, ''MI'', ''https://u/C1'')]"
    by code_simp
  have 4: "\<not> (\<forall>detect. \<exists>r. get_relations relations5 ''K'' detect 0 ''MI'' ''https://u/C1'' 1 []
                         = Inr r)"
  proof
    assume "\<forall>detect. \<exists>r. get_relations relations5 ''K'' detect 0 ''MI'' ''https://u/C1'' 1 []
                         = Inr r"
    then obtain r where
      "get_relations relations5 ''K'' detect_sample 0 ''MI'' ''https://u/C1'' 1 [] = Inr r"
      by blast
    with 2 show False by simp
  qed
  from 1 2 3 4 show ?thesis by blast
qed

text \<open>
  Claim C2, amended. On a page that was fetched with success: when language
  identification returns a language for every record, and the records it judges English
  have a name, the fetch completes normally, its children are exactly the records judged
  English, in page order, and an edge is added or changed only from the current node to a
  name judged English, so a record judged otherwise leaves no child and no edge.
\<close>

theorem language_filter_excludes_non_english:
  assumes "http (uri @ ''/relations?pageNumber='' @ str_int page_number @ ''&apiKey='' @ api_key)
           = (200, \<lparr>rel_result = Some infos\<rparr>)"
    and "\<forall>info \<in> set infos. \<exists>lang. detect (relatedIdName info) = Inr lang
              \<and> (lang = ''en'' \<longrightarrow> relatedIdName info \<noteq> None)"
  shows "\<exists>kids g'.
           get_relations http api_key detect depth name uri page_number g = Inr (kids, g')
           \<and> map (\<lambda>k. Some (fst k)) kids = map relatedIdName (filter (english detect) infos)
           \<and> map snd kids = map relatedId (filter (english detect) infos)
           \<and> (\<forall>u v. edge_data_of g' u v \<noteq> edge_data_of g u v \<longrightarrow>
                 u = name \<and> detect (Some v) = Inr ''en'')"
proof -
  have eq: "get_relations http api_key detect depth name uri page_number g
      = relations_loop detect depth name infos [] g"
    using assms(1) by (simp add: get_relations_def get_request_def Let_def)
  show ?thesis
    unfolding eq
    using relations_loop_ok[where infos = infos and detect = detect and name = name
        and depth = depth and kids = "[]" and g = g, OF assms(2)]
    by simp
qed

text \<open>
  On service 1 the page of MI has a German name between two English ones: ACS and Angina
  are returned and recorded, the German name is not.
\<close>

theorem language_filter_excludes_non_english_witness:
  "detect_sample (Some ''Herzinfarkt'') = Inr ''de''
   \<and> (\<exists>kids g'.
         get_relations relations1 ''K'' detect_sample 0 ''MI'' ''https://u/C1'' 1 [] = Inr (kids, g')
         \<and> map (\<lambda>k. Some (fst k)) kids = [Some ''ACS'', Some ''Angina'']
         \<and> map snd kids = [Some ''https://u/C2'', Some ''https://u/C3'']
         \<and> edge_data_of g' ''MI'' ''Herzinfarkt'' = None)"
proof -
  let ?page1 = "[rel ''ACS'' ''related_to'' ''https://u/C2'',
                 rel ''Herzinfarkt'' ''translation_of'' ''https://u/C9'',
                 rel ''Angina'' ''has_finding'' ''https://u/C3'']"
  have h1: "relations1 (''https://u/C1'' @ ''/relations?pageNumber='' @ str_int 1 @ ''&apiKey='' @ ''K'')
      = (200, \<lparr>rel_result = Some ?page1\<rparr>)"
    by code_simp
  have d1: "detect_sample (Some ''ACS'') = Inr ''en''"
    and d2: "detect_sample (Some ''Herzinfarkt'') = Inr ''de''"
    and d3: "detect_sample (Some ''Angina'') = Inr ''en''"
    by code_simp+
  have ok1: "\<forall>info \<in> set ?page1. \<exists>lang. detect_sample (relatedIdName info) = Inr lang
              \<and> (lang = ''en'' \<longrightarrow> relatedIdName info \<noteq> None)"
    by (simp add: rel_def d1 d2 d3)
  have f1: "map relatedIdName (filter (english detect_sample) ?page1) = [Some ''ACS'', Some ''Angina'']"
    by (simp add: english_def rel_def d1 d2 d3)
  have f2: "map relatedId (filter (english detect_sample) ?page1)
      = [Some ''https://u/C2'', Some ''https://u/C3'']"
    by (simp add: english_def rel_def d1 d2 d3)
  from language_filter_excludes_non_english
        [where http = relations1 and uri = "''https://u/C1''" and page_number = 1
           and api_key = "''K''" and infos = ?page1
           and detect = detect_sample and depth = 0 and name = "''MI''" and g = "[]",
         OF h1 ok1]
  obtain kids g' where
    r: "get_relations relations1 ''K'' detect_sample 0 ''MI'' ''https://u/C1'' 1 [] = Inr (kids, g')"
    and k1: "map (\<lambda>k. Some (fst k)) kids = [Some ''ACS'', Some ''Angina'']"
    and k2: "map snd kids = [Some ''https://u/C2'', Some ''https://u/C3'']"
    and e: "\<forall>u v. edge_data_of g' u v \<noteq> edge_data_of [] u v \<longrightarrow>
                 u = ''MI'' \<and> detect_sample (Some v) = Inr ''en''"
    unfolding f1 f2 by (elim exE conjE)
  have "edge_data_of g' ''MI'' ''Herzinfarkt'' = None"
  proof (rule ccontr)
    assume "edge_data_of g' ''MI'' ''Herzinfarkt'' \<noteq> None"
    then have "edge_data_of g' ''MI'' ''Herzinfarkt'' \<noteq> edge_data_of [] ''MI'' ''Herzinfarkt''"
      by (simp add: edge_data_of_def)
    with e have "detect_sample (Some ''Herzinfarkt'') = Inr ''en''" by blast
    with d2 show False by simp
  qed
  with r k1 k2 d2 show ?thesis by simp
qed

text \<open>
  When \<open>detect\<close> raises on a record of the page, \<open>get_relations\<close> raises: nothing
  between the call and the caller of \<open>main\<close> handles the exception.
\<close>

lemma get_relations_detect_raises:
  assumes "http (uri @ ''/relations?pageNumber='' @ str_int page_number @ ''&apiKey='' @ api_key)
           = (200, \<lparr>rel_result = Some infos\<rparr>)"
    and "\<exists>info \<in> set infos. \<exists>e. detect (relatedIdName info) = Inl e"
  shows "\<exists>e. get_relations http api_key detect depth name uri page_number g = Inl e"
proof -
  have eq: "get_relations http api_key detect depth name uri page_number g
      = relations_loop detect depth name infos [] g"
    using assms(1) by (simp add: get_relations_def get_request_def Let_def)
  show ?thesis
    unfolding eq using assms(2) by (rule relations_loop_raises)
qed

subsection \<open>The relationship listing\<close>

lemma split_char_no_sep: "c \<notin> set x \<Longrightarrow> split_char c x = [x]"
  by (induction x) auto

lemma split_char_append_sep:
  "c \<notin> set x \<Longrightarrow> split_char c (x @ c # rest) = x # split_char c rest"
  by (induction x) auto

lemma split_char_join:
  "xs \<noteq> [] \<Longrightarrow> \<forall>x \<in> set xs. c \<notin> set x \<Longrightarrow> split_char c (join [c] xs) = xs"
proof (induction "[c]" xs rule: join.induct)
  case 1
  then show ?case by simp
next
  case (2 x)
  then show ?case by (simp add: split_char_no_sep)
next
  case (3 x y ys)
  then show ?case by (simp add: split_char_append_sep)
qed

lemma join_eq_Nil: "join sep xs = [] \<Longrightarrow> xs \<noteq> [] \<Longrightarrow> \<exists>x \<in> set xs. x = []"
  by (induction sep xs rule: join.induct) auto

lemma run6a: "main search6 relations6 ''K'' detect_sample ''A'' 0 = Completed final6a"
  by code_simp

lemma run6b: "main search6 relations6 ''K'' detect_sample ''A --> B'' 0 = Completed final6b"
  by code_simp

lemma begins_inside_iff:
  "begins_inside sep s \<longleftrightarrow> (\<exists>i < length s. take (length sep) (drop i (s @ sep)) = sep)"
  by (auto simp: begins_inside_def list_ex_iff)

lemma begins_inside_Cons:
  assumes "\<not> begins_inside sep (c # u)"
  shows "take (length sep) ((c # u) @ sep) \<noteq> sep" and "\<not> begins_inside sep u"
proof -
  from assms have n: "\<And>i. i < Suc (length u) \<Longrightarrow>
      take (length sep) (drop i ((c # u) @ sep)) \<noteq> sep"
    by (auto simp: begins_inside_iff)
  from n[of 0] show "take (length sep) ((c # u) @ sep) \<noteq> sep" by simp
  show "\<not> begins_inside sep u"
  proof
    assume "begins_inside sep u"
    then obtain i where "i < length u" "take (length sep) (drop i (u @ sep)) = sep"
      by (auto simp: begins_inside_iff)
    with n[of "Suc i"] show False by simp
  qed
qed

lemma take_append_le: "n \<le> length xs \<Longrightarrow> take n (xs @ ys) = take n xs"
  by simp

lemma find_sep_boundary:
  assumes "sep \<noteq> []" and "\<not> begins_inside sep u"
  shows "find_sep sep (u @ sep @ rest) = Some (u, rest)"
  using assms(2)
proof (induction u)
  case Nil
  from assms(1) obtain c cs where e: "sep @ rest = c # cs"
    by (cases "sep @ rest") auto
  have t: "take (length sep) (c # cs) = sep" and d: "drop (length sep) (c # cs) = rest"
    unfolding e[symmetric] by simp_all
  have "find_sep sep (c # cs) = Some ([], rest)"
    by (simp only: find_sep.simps t d simp_thms if_True)
  then show ?case by (simp add: e)
next
  case (Cons c u)
  from begins_inside_Cons[OF Cons.prems] have
    n0: "take (length sep) ((c # u) @ sep) \<noteq> sep" and nu: "\<not> begins_inside sep u"
    by blast+
  have "length sep \<le> length ((c # u) @ sep)"
    by simp
  then have "take (length sep) (((c # u) @ sep) @ rest) = take (length sep) ((c # u) @ sep)"
    by (rule take_append_le)
  moreover have "((c # u) @ sep) @ rest = c # (u @ sep @ rest)"
    by simp
  ultimately have "take (length sep) (c # (u @ sep @ rest)) = take (length sep) ((c # u) @ sep)"
    by (simp only:)
  with n0 have "take (length sep) (c # (u @ sep @ rest)) \<noteq> sep"
    by (simp only: simp_thms not_False_eq_True)
  then show ?case
    using Cons.IH[OF nu] by simp
qed

lemma sep_arrow_not_empty: "sep_arrow \<noteq> []"
  by (simp add: sep_arrow_def)

lemma sep_relation_not_empty: "sep_relation \<noteq> []"
  by (simp add: sep_relation_def)

lemma relationship_seps:
  "relationship (u, v, d) = u @ sep_arrow @ v @ sep_relation @ e_label d @ '')''"
  by (simp add: relationship_def sep_arrow_def sep_relation_def)

lemma parse_line_relationship:
  assumes "\<not> begins_inside sep_arrow u" and "\<not> begins_inside sep_relation v"
  shows "parse_line (relationship (u, v, d)) = Some (u, v, e_label d)"
proof -
  have 1: "find_sep sep_arrow (u @ sep_arrow @ v @ sep_relation @ e_label d @ '')'')
      = Some (u, v @ sep_relation @ e_label d @ '')'')"
    using sep_arrow_not_empty assms(1) by (rule find_sep_boundary)
  have 2: "find_sep sep_relation (v @ sep_relation @ e_label d @ '')'')
      = Some (v, e_label d @ '')'')"
    using sep_relation_not_empty assms(2) by (rule find_sep_boundary)
  have 3: "e_label d @ '')'' \<noteq> [] \<and> last (e_label d @ '')'') = CHR '')''"
    by simp
  have 4: "butlast (e_label d @ '')'') = e_label d"
    by (simp add: butlast_append)
  show ?thesis
    using 3 by (simp add: parse_line_def relationship_seps 1 2 4)
qed

lemma parse_line_readable: "readable e \<Longrightarrow> parse_line (relationship e) = Some (triple e)"
  by (cases e) (simp add: readable_def triple_def parse_line_relationship)

lemma relationship_no_newline:
  assumes "readable e"
  shows "CHR 0x0A \<notin> set (relationship e)" and "relationship e \<noteq> []"
  using assms by (cases e; simp add: readable_def relationship_def)+

lemma listing_lines_relationships:
  assumes "list_all readable (edges g)"
  shows "listing_lines (relationships_txt g) = map relationship (edges g)"
proof (cases "edges g = []")
  case True
  then show ?thesis
    by (simp add: listing_lines_def relationships_txt_def relationships_def)
next
  case False
  let ?ls = "map relationship (edges g)"
  have ne: "?ls \<noteq> []" using False by simp
  have nl: "\<forall>x \<in> set ?ls. CHR 0x0A \<notin> set x"
    using assms by (auto simp: list_all_iff relationship_no_newline)
  have "\<forall>x \<in> set ?ls. x \<noteq> []"
    using assms by (auto simp: list_all_iff relationship_no_newline)
  with ne have "join [CHR 0x0A] ?ls \<noteq> []"
    using join_eq_Nil[of "[CHR 0x0A]" ?ls] by blast
  then have "listing_lines (relationships_txt g) = split_char (CHR 0x0A) (join [CHR 0x0A] ?ls)"
    by (simp add: listing_lines_def relationships_txt_def relationships_def)
  also have "\<dots> = ?ls"
    using ne nl by (rule split_char_join)
  finally show ?thesis .
qed

text \<open>
  The conditions of \<open>readable\<close> cannot be dropped. A text with a line break is more than
  one line; and when a delimiter begins inside a name, the same text is written for a
  shorter name.
\<close>

lemma length_split_char:
  "length (split_char c s) = Suc (length (filter (\<lambda>x. x = c) s))"
  by (induction s) (auto split: list.splits)

lemma newline_several_lines:
  assumes "c \<in> set s"
  shows "1 < length (split_char c s)"
proof -
  from assms have "filter (\<lambda>x. x = c) s \<noteq> []"
    by (auto simp: filter_empty_conv)
  then show ?thesis
    by (simp add: length_split_char)
qed

lemma begins_inside_split:
  assumes "begins_inside sep s"
  shows "\<exists>s' w. length s' < length s \<and> s @ sep = s' @ sep @ w"
proof -
  from assms obtain i where i: "i < length s"
    and t: "take (length sep) (drop i (s @ sep)) = sep"
    by (auto simp: begins_inside_iff)
  have a: "s @ sep = take i (s @ sep) @ drop i (s @ sep)"
    by (rule append_take_drop_id[symmetric])
  have b: "take i (s @ sep) = take i s"
    using i by simp
  have c: "drop i (s @ sep)
      = take (length sep) (drop i (s @ sep)) @ drop (length sep) (drop i (s @ sep))"
    by (rule append_take_drop_id[symmetric])
  have "s @ sep = take i s @ sep @ drop (length sep) (drop i (s @ sep))"
    by (subst a, subst c) (simp only: b t)
  moreover have "length (take i s) < length s"
    using i by simp
  ultimately show ?thesis by blast
qed

lemma unreadable_edge:
  assumes "\<not> readable e"
  shows "1 < length (split_char (CHR 0x0A) (relationship e))
       \<or> (\<exists>e'. triple e' \<noteq> triple e \<and> relationship e' = relationship e)"
proof -
  obtain u v d where e: "e = (u, v, d)" by (cases e)
  from assms e consider
    (nl) "CHR 0x0A \<in> set u \<union> set v \<union> set (e_label d)"
    | (src) "begins_inside sep_arrow u"
    | (tgt) "begins_inside sep_relation v"
    by (auto simp: readable_def)
  then show ?thesis
  proof cases
    case nl
    then have "CHR 0x0A \<in> set (relationship e)"
      by (auto simp: e relationship_def)
    then show ?thesis by (blast intro: newline_several_lines)
  next
    case src
    from begins_inside_split[OF this] obtain u' w where
      l: "length u' < length u" and s: "u @ sep_arrow = u' @ sep_arrow @ w"
      by blast
    have "relationship (u', w @ v, d)
        = (u' @ sep_arrow @ w) @ v @ sep_relation @ e_label d @ '')''"
      by (simp add: relationship_seps)
    also have "\<dots> = (u @ sep_arrow) @ v @ sep_relation @ e_label d @ '')''"
      by (simp only: s)
    also have "\<dots> = relationship (u, v, d)"
      by (simp add: relationship_seps)
    finally have "relationship (u', w @ v, d) = relationship e"
      by (simp add: e)
    moreover from l have "triple (u', w @ v, d) \<noteq> triple e"
      by (auto simp: triple_def e)
    ultimately show ?thesis by blast
  next
    case tgt
    from begins_inside_split[OF this] obtain v' w where
      l: "length v' < length v" and s: "v @ sep_relation = v' @ sep_relation @ w"
      by blast
    let ?d = "d\<lparr>e_label := w @ e_label d\<rparr>"
    have "relationship (u, v', ?d)
        = u @ sep_arrow @ (v' @ sep_relation @ w) @ e_label d @ '')''"
      by (simp add: relationship_seps)
    also have "\<dots> = u @ sep_arrow @ (v @ sep_relation) @ e_label d @ '')''"
      by (simp only: s)
    also have "\<dots> = relationship (u, v, d)"
      by (simp add: relationship_seps)
    finally have "relationship (u, v', ?d) = relationship e"
      by (simp add: e)
    moreover from l have "triple (u, v', ?d) \<noteq> triple e"
      by (auto simp: triple_def e)
    ultimately show ?thesis by blast
  qed
qed

text \<open>
  Claim C8, as stated: the listing has exactly one line per edge, and parsing it recovers
  the (source, target, label) triples of the graph. The listing does not determine them: on
  service 6 the crawl from \<open>A\<close> and the crawl from \<open>A --> B\<close> end in graphs with different
  triples and the same listing, so no parser recovers both. The same happens on service 9
  when the arrow begins inside the source name (\<open>P -->\<close>) and when \<open>(Relation:\<close> begins
  inside the target name; and there the crawl from \<open>N\<close> ends with one edge and a listing
  of two lines.
\<close>

theorem listing_does_not_determine_triples:
  "main search6 relations6 ''K'' detect_sample ''A'' 0 = Completed final6a
   \<and> main search6 relations6 ''K'' detect_sample ''A --> B'' 0 = Completed final6b
   \<and> relationships_txt (graph final6a) = ''A --> B --> C (Relation: isa())''
   \<and> relationships_txt (graph final6b) = ''A --> B --> C (Relation: isa())''
   \<and> map triple (edges (graph final6a)) = [(''A'', ''B --> C'', ''isa()'')]
   \<and> map triple (edges (graph final6b)) = [(''A --> B'', ''C'', ''isa()'')]
   \<and> \<not> (\<exists>parse.
           set (parse (relationships_txt (graph final6a)))
             = set (map triple (edges (graph final6a)))
         \<and> set (parse (relationships_txt (graph final6b)))
             = set (map triple (edges (graph final6b))))
   \<and> final_listing (main search9 relations9 ''K'' detect_sample ''P'' 0)
       = Some ''P --> --> Q (Relation: isa())''
   \<and> final_listing (main search9 relations9 ''K'' detect_sample ''P -->'' 0)
       = Some ''P --> --> Q (Relation: isa())''
   \<and> final_triples (main search9 relations9 ''K'' detect_sample ''P'' 0)
       = Some [(''P'', ''--> Q'', ''isa()'')]
   \<and> final_triples (main search9 relations9 ''K'' detect_sample ''P -->'' 0)
       = Some [(''P -->'', ''Q'', ''isa()'')]
   \<and> final_listing (main search9 relations9 ''K'' detect_sample ''R'' 0)
       = Some ''R --> S (Relation: T (Relation: isa())''
   \<and> final_listing (main search9 relations9 ''K'' detect_sample ''R2'' 0)
       = Some ''R --> S (Relation: T (Relation: isa())''
   \<and> final_triples (main search9 relations9 ''K'' detect_sample ''R'' 0)
       = Some [(''R'', ''S (Relation: T'', ''isa()'')]
   \<and> final_triples (main search9 relations9 ''K'' detect_sample ''R2'' 0)
       = Some [(''R'', ''S'', ''T (Relation: isa()'')]
   \<and> map_option length (final_triples (main search9 relations9 ''K'' detect_sample ''N'' 0))
       = Some 1
   \<and> map_option (\<lambda>txt. length (listing_lines txt))
        (final_listing (main search9 relations9 ''K'' detect_sample ''N'' 0))
       = Some 2"
proof -
  have a: "relationships_txt (graph final6a) = ''A --> B --> C (Relation: isa())''"
    by code_simp
  have b: "relationships_txt (graph final6b) = ''A --> B --> C (Relation: isa())''"
    by code_simp
  have ta: "map triple (edges (graph final6a)) = [(''A'', ''B --> C'', ''isa()'')]"
    by code_simp
  have tb: "map triple (edges (graph final6b)) = [(''A --> B'', ''C'', ''isa()'')]"
    by code_simp
  have n: "\<not> (\<exists>parse.
           set (parse (relationships_txt (graph final6a)))
             = set (map triple (edges (graph final6a)))
         \<and> set (parse (relationships_txt (graph final6b)))
             = set (map triple (edges (graph final6b))))"
    unfolding a b ta tb by auto
  have p1: "final_listing (main search9 relations9 ''K'' detect_sample ''P'' 0)
       = Some ''P --> --> Q (Relation: isa())''"
    by code_simp
  have p2: "final_listing (main search9 relations9 ''K'' detect_sample ''P -->'' 0)
       = Some ''P --> --> Q (Relation: isa())''"
    by code_simp
  have p3: "final_triples (main search9 relations9 ''K'' detect_sample ''P'' 0)
       = Some [(''P'', ''--> Q'', ''isa()'')]"
    by code_simp
  have p4: "final_triples (main search9 relations9 ''K'' detect_sample ''P -->'' 0)
       = Some [(''P -->'', ''Q'', ''isa()'')]"
    by code_simp
  have r1: "final_listing (main search9 relations9 ''K'' detect_sample ''R'' 0)
       = Some ''R --> S (Relation: T (Relation: isa())''"
    by code_simp
  have r2: "final_listing (main search9 relations9 ''K'' detect_sample ''R2'' 0)
       = Some ''R --> S (Relation: T (Relation: isa())''"
    by code_simp
  have r3: "final_triples (main search9 relations9 ''K'' detect_sample ''R'' 0)
       = Some [(''R'', ''S (Relation: T'', ''isa()'')]"
    by code_simp
  have r4: "final_triples (main search9 relations9 ''K'' detect_sample ''R2'' 0)
       = Some [(''R'', ''S'', ''T (Relation: isa()'')]"
    by code_simp
  have n1: "map_option length
        (final_triples (main search9 relations9 ''K'' detect_sample ''N'' 0)) = Some 1"
    by code_simp
  have n2: "map_option (\<lambda>txt. length (listing_lines txt))
        (final_listing (main search9 relations9 ''K'' detect_sample ''N'' 0)) = Some 2"
    by code_simp
  show ?thesis
    by (intro conjI run6a run6b a b ta tb n p1 p2 p3 p4 r1 r2 r3 r4 n1 n2)
qed

text \<open>
  Claim C8, amended. The listing is the join, with line breaks, of one entry per edge, in
  the graph's edge iteration order, of the form
  \<open>{source} --> {target} (Relation: {label})\<close>. Where every edge is readable (no line
  break in a name or label, the arrow does not begin inside a source name,
  \<open>(Relation:\<close> does not begin inside a target name), the listing has exactly these
  entries as its lines, and parsing it gives the (source, target, label) triples of the
  graph, in iteration order. No edge is excluded without need: the entry of an edge that
  is not readable spans several lines, or is also the entry of an edge with another
  triple.
\<close>

theorem listing_round_trip:
  "relationships_txt g
     = join [CHR 0x0A]
         (map (\<lambda>(u, v, d). u @ '' --> '' @ v @ '' (Relation: '' @ e_label d @ '')'') (edges g))
   \<and> (list_all readable (edges g) \<longrightarrow>
         listing_lines (relationships_txt g)
           = map (\<lambda>(u, v, d). u @ '' --> '' @ v @ '' (Relation: '' @ e_label d @ '')'') (edges g)
         \<and> parse_listing (relationships_txt g) = map (\<lambda>e. Some (triple e)) (edges g))
   \<and> (\<not> readable e \<longrightarrow>
         1 < length (split_char (CHR 0x0A) (relationship e))
         \<or> (\<exists>e'. triple e' \<noteq> triple e \<and> relationship e' = relationship e))"
proof -
  have f: "(\<lambda>(u, v, d). u @ '' --> '' @ v @ '' (Relation: '' @ e_label d @ '')'') = relationship"
    by (rule ext) (simp add: relationship_def)
  have 1: "relationships_txt g = join [CHR 0x0A] (map relationship (edges g))"
    by (simp add: relationships_txt_def relationships_def)
  have 2: "listing_lines (relationships_txt g) = map relationship (edges g)"
    if "list_all readable (edges g)"
    using that by (rule listing_lines_relationships)
  have 3: "parse_listing (relationships_txt g) = map (\<lambda>e. Some (triple e)) (edges g)"
    if r: "list_all readable (edges g)"
  proof -
    have "parse_listing (relationships_txt g) = map parse_line (map relationship (edges g))"
      by (simp only: parse_listing_def 2[OF r])
    also have "\<dots> = map (\<lambda>e. Some (triple e)) (edges g)"
      using r by (simp add: list_all_iff parse_line_readable)
    finally show ?thesis .
  qed
  have 4: "1 < length (split_char (CHR 0x0A) (relationship e))
         \<or> (\<exists>e'. triple e' \<noteq> triple e \<and> relationship e' = relationship e)"
    if "\<not> readable e"
    using that by (rule unreadable_edge)
  from 1 2 3 4 show ?thesis
    unfolding f by blast
qed

lemma run8: "main search8 relations8 ''K'' detect_sample ''Age > 65'' 0 = Completed final8"
  by code_simp

text \<open>
  The two lines of the final graph of service 8, whose names contain \<open>>\<close> and \<open>:\<close>, and
  what parsing them gives; and an edge that is not readable, from \<open>A --> B\<close> to \<open>C\<close>.
\<close>

theorem listing_round_trip_witness:
  "main search8 relations8 ''K'' detect_sample ''Age > 65'' 0 = Completed final8
   \<and> list_all readable (edges (graph final8))
   \<and> listing_lines (relationships_txt (graph final8))
       = [''Age > 65 --> Elderly (Relation: isa())'',
          ''Age > 65 --> Finding: frailty (Relation: may_cause())'']
   \<and> parse_listing (relationships_txt (graph final8))
       = [Some (''Age > 65'', ''Elderly'', ''isa()''),
          Some (''Age > 65'', ''Finding: frailty'', ''may_cause()'')]
   \<and> \<not> readable (''A --> B'', ''C'', \<lparr>e_label = ''isa()'', e_uri = None, e_depth = 0\<rparr>)
   \<and> (1 < length (split_char (CHR 0x0A)
              (relationship (''A --> B'', ''C'', \<lparr>e_label = ''isa()'', e_uri = None, e_depth = 0\<rparr>)))
        \<or> (\<exists>e'. triple e' \<noteq> triple (''A --> B'', ''C'', \<lparr>e_label = ''isa()'', e_uri = None, e_depth = 0\<rparr>)
              \<and> relationship e'
                = relationship (''A --> B'', ''C'', \<lparr>e_label = ''isa()'', e_uri = None, e_depth = 0\<rparr>)))"
proof -
  let ?e = "(''A --> B'', ''C'', \<lparr>e_label = ''isa()'', e_uri = None, e_depth = 0\<rparr>)"
  have 1: "list_all readable (edges (graph final8))"
    by code_simp
  have 2: "map (\<lambda>(u, v, d). u @ '' --> '' @ v @ '' (Relation: '' @ e_label d @ '')'')
             (edges (graph final8))
       = [''Age > 65 --> Elderly (Relation: isa())'',
          ''Age > 65 --> Finding: frailty (Relation: may_cause())'']"
    by code_simp
  have 3: "map (\<lambda>e. Some (triple e)) (edges (graph final8))
       = [Some (''Age > 65'', ''Elderly'', ''isa()''),
          Some (''Age > 65'', ''Finding: frailty'', ''may_cause()'')]"
    by code_simp
  have 4: "\<not> readable ?e"
    by code_simp
  note t = listing_round_trip [of "graph final8" ?e]
  from t 1 have a: "listing_lines (relationships_txt (graph final8))
       = [''Age > 65 --> Elderly (Relation: isa())'',
          ''Age > 65 --> Finding: frailty (Relation: may_cause())'']"
    and b: "parse_listing (relationships_txt (graph final8))
       = [Some (''Age > 65'', ''Elderly'', ''isa()''),
          Some (''Age > 65'', ''Finding: frailty'', ''may_cause()'')]"
    unfolding 2 3 by blast+
  from t 4 have c: "1 < length (split_char (CHR 0x0A) (relationship ?e))
        \<or> (\<exists>e'. triple e' \<noteq> triple ?e \<and> relationship e' = relationship ?e)"
    by blast
  show ?thesis
    by (intro conjI run8 1 a b 4 c)
qed

subsection \<open>Two runs of the crawl\<close>










end
